theory Spec2Isabelle
  imports Main "HOL-Library.Word" "HOL-Library.Signed_Division" "HOL-Library.Sublist"
    "HOL-Library.Multiset"
begin

unbundle bit_operations_syntax

section \<open>Go base types\<close>

text \<open>
  A Go \<open>string\<close> is an immutable sequence of bytes, as a HOL \<open>string\<close> is (a \<open>char\<close> has
  eight bits); \<open>bytes\<close> reads it as the list of its byte values. \<open>rune\<close> is an alias of \<open>int32\<close>.
  Signed arithmetic on \<open>int32\<close> wraps around (two's complement), which is what \<open>+\<close> and
  \<open>*\<close> on \<open>32 word\<close> do; comparisons of \<open>int32\<close> values are the signed ones (\<open><s\<close>, \<open>\<le>s\<close>).
\<close>

type_synonym byte = "8 word"
type_synonym gostring = string
type_synonym int32 = "32 word"
type_synonym int64 = "64 word"
type_synonym rune = "32 word"

definition byte_of :: "char \<Rightarrow> byte" where
  "byte_of c = of_char c"

definition bytes :: "gostring \<Rightarrow> byte list" where
  "bytes s = map byte_of s"

section \<open>Iterating a string: \<open>for _, r := range s\<close>\<close>

text \<open>
  The loop of \<open>hashCode\<close> ranges over a string, which decodes UTF-8. The Go runtime does
  this with \<open>decoderune\<close> (runtime/utf8.go); a byte below \<open>RuneSelf\<close> is taken as it is, and
  every ill-formed sequence yields \<open>RuneError\<close> (U+FFFD) and advances by one byte.
  \<open>decoderune\<close> below receives the rest of the string \<open>s[k:]\<close> and returns the rune together
  with the number of bytes consumed.
\<close>

abbreviation runeError :: rune where "runeError \<equiv> 0xFFFD"
abbreviation runeSelf :: byte where "runeSelf \<equiv> 0x80"
abbreviation maxRune :: rune where "maxRune \<equiv> 0x10FFFF"
abbreviation surrogateMin :: rune where "surrogateMin \<equiv> 0xD800"
abbreviation surrogateMax :: rune where "surrogateMax \<equiv> 0xDFFF"

abbreviation t2 :: byte where "t2 \<equiv> 0xC0"
abbreviation t3 :: byte where "t3 \<equiv> 0xE0"
abbreviation t4 :: byte where "t4 \<equiv> 0xF0"
abbreviation t5 :: byte where "t5 \<equiv> 0xF8"
abbreviation maskx :: byte where "maskx \<equiv> 0x3F"
abbreviation mask2 :: byte where "mask2 \<equiv> 0x1F"
abbreviation mask3 :: byte where "mask3 \<equiv> 0x0F"
abbreviation mask4 :: byte where "mask4 \<equiv> 0x07"
abbreviation rune1Max :: rune where "rune1Max \<equiv> 0x7F"
abbreviation rune2Max :: rune where "rune2Max \<equiv> 0x7FF"
abbreviation rune3Max :: rune where "rune3Max \<equiv> 0xFFFF"

definition cont :: "byte \<Rightarrow> bool" where
  \<comment> \<open>\<open>locb <= b && b <= hicb\<close>: a continuation byte\<close>
  "cont b = (0x80 \<le> b \<and> b \<le> 0xBF)"

definition rune_of :: "byte \<Rightarrow> rune" where
  \<comment> \<open>the conversion \<open>rune(b)\<close> of a byte: zero extension\<close>
  "rune_of b = ucast b"

fun decoderune :: "byte list \<Rightarrow> rune \<times> nat" where
  "decoderune [] = (runeError, 1)"
| "decoderune (s0 # rest) =
     (if t2 \<le> s0 \<and> s0 < t3 then
        (case rest of
           s1 # _ \<Rightarrow>
             if cont s1 then
               (let r = push_bit 6 (rune_of (s0 AND mask2)) OR rune_of (s1 AND maskx)
                in if rune1Max <s r then (r, 2) else (runeError, 1))
             else (runeError, 1)
         | _ \<Rightarrow> (runeError, 1))
      else if t3 \<le> s0 \<and> s0 < t4 then
        (case rest of
           s1 # s2 # _ \<Rightarrow>
             if cont s1 \<and> cont s2 then
               (let r = push_bit 12 (rune_of (s0 AND mask3)) OR push_bit 6 (rune_of (s1 AND maskx))
                          OR rune_of (s2 AND maskx)
                in if rune2Max <s r \<and> \<not> (surrogateMin \<le>s r \<and> r \<le>s surrogateMax)
                   then (r, 3) else (runeError, 1))
             else (runeError, 1)
         | _ \<Rightarrow> (runeError, 1))
      else if t4 \<le> s0 \<and> s0 < t5 then
        (case rest of
           s1 # s2 # s3 # _ \<Rightarrow>
             if cont s1 \<and> cont s2 \<and> cont s3 then
               (let r = push_bit 18 (rune_of (s0 AND mask4)) OR push_bit 12 (rune_of (s1 AND maskx))
                          OR push_bit 6 (rune_of (s2 AND maskx)) OR rune_of (s3 AND maskx)
                in if rune3Max <s r \<and> r \<le>s maxRune then (r, 4) else (runeError, 1))
             else (runeError, 1)
         | _ \<Rightarrow> (runeError, 1))
      else (runeError, 1))"

function range_runes :: "byte list \<Rightarrow> rune list" where
  "range_runes [] = []"
| "range_runes (b # bs) =
     (if b < runeSelf then rune_of b # range_runes bs
      else (case decoderune (b # bs) of (r, w) \<Rightarrow> r # range_runes (drop w (b # bs))))"
  by pat_completeness auto
termination
  by (relation "measure length") (auto simp: Let_def split: if_splits list.splits)

section \<open>The partition hasher (common.go)\<close>

text \<open>
  \<open>utf16.EncodeRune\<close> of the standard library: the surrogate pair of a rune in
  \<open>[0x10000, 0x10FFFF]\<close>, and \<open>(U+FFFD, U+FFFD)\<close> for every other rune. \<open>>>\<close> on \<open>int32\<close> is
  the arithmetic shift.
\<close>

abbreviation replacementChar :: rune where "replacementChar \<equiv> 0xFFFD"
abbreviation surr1 :: rune where "surr1 \<equiv> 0xD800"
abbreviation surr2 :: rune where "surr2 \<equiv> 0xDC00"
abbreviation surrSelf :: rune where "surrSelf \<equiv> 0x10000"

definition EncodeRune :: "rune \<Rightarrow> rune \<times> rune" where
  "EncodeRune r =
     (if r <s surrSelf \<or> maxRune <s r then (replacementChar, replacementChar)
      else (let r' = r - surrSelf
            in (surr1 + (signed_drop_bit 10 r' AND 0x3FF), surr2 + (r' AND 0x3FF))))"

definition hashCode_step :: "int32 \<Rightarrow> rune \<Rightarrow> int32" where
  \<comment> \<open>the body of the loop of \<open>hashCode\<close>\<close>
  "hashCode_step hc r =
     (case EncodeRune r of (r1, r2) \<Rightarrow>
        if r1 = 0xFFFD \<and> r1 = r2 then hc * 31 + r
        else (hc * 31 + r1) * 31 + r2)"

definition hashCode :: "gostring \<Rightarrow> int32" where
  "hashCode s = foldl hashCode_step 0 (range_runes (bytes s))"

definition kafkaAbs :: "int32 \<Rightarrow> int32" where
  "kafkaAbs i =
     (if i = - 2147483648 then 0
      else if i <s 0 then i * (- 1)
      else i)"

text \<open>
  Go's \<open>%\<close> on signed integers truncates towards zero (the result has the sign of the
  dividend) and panics when the divisor is zero; \<open>None\<close> is that run-time panic.
\<close>

definition go_rem :: "int32 \<Rightarrow> int32 \<Rightarrow> int32 option" where
  "go_rem a b = (if b = 0 then None else Some (word_of_int (sint a smod sint b)))"

definition hashCodePartition :: "gostring \<Rightarrow> int32 \<Rightarrow> int32 option" where
  "hashCodePartition key partitions =
     (if partitions \<le>s 0 then Some (- 1)
      else go_rem (kafkaAbs (hashCode key)) partitions)"

subsection \<open>The hash as the specification words it\<close>

text \<open>
  The specification describes the hash over the UTF-16 code unit sequence of the string:
  a code point of the Basic Multilingual Plane is one code unit, a code point beyond it is
  a high surrogate followed by a low surrogate. The code points of a Go string are the
  runes that ranging over it yields. Each code unit is one accumulation step
  \<open>hash = hash * 31 + codeUnit\<close> in 32-bit arithmetic.
\<close>

definition bmp :: "nat \<Rightarrow> bool" where
  "bmp cp = (cp < 0x10000)"

definition high_surrogate :: "nat \<Rightarrow> 16 word" where
  "high_surrogate cp = of_nat (0xD800 + (cp - 0x10000) div 0x400)"

definition low_surrogate :: "nat \<Rightarrow> 16 word" where
  "low_surrogate cp = of_nat (0xDC00 + (cp - 0x10000) mod 0x400)"

definition utf16_of_code_point :: "nat \<Rightarrow> 16 word list" where
  "utf16_of_code_point cp =
     (if bmp cp then [of_nat cp] else [high_surrogate cp, low_surrogate cp])"

definition code_points :: "gostring \<Rightarrow> nat list" where
  "code_points s = map unat (range_runes (bytes s))"

definition utf16_code_units :: "gostring \<Rightarrow> 16 word list" where
  "utf16_code_units s = concat (map utf16_of_code_point (code_points s))"

definition accumulate :: "int32 \<Rightarrow> 16 word \<Rightarrow> int32" where
  "accumulate hash codeUnit = hash * 31 + ucast codeUnit"

definition valid_rune :: "rune \<Rightarrow> bool" where
  \<comment> \<open>a rune that is a Unicode code point: at most \<open>0x10FFFF\<close> (and so not negative)\<close>
  "valid_rune r = (r \<le> 0x10FFFF)"

section \<open>Topic metadata (topic.go)\<close>

subsection \<open>Records and the cluster client\<close>

text \<open>
  The structs \<open>topic\<close> and \<open>partition\<close>. A slice field is a list; the empty list stands
  for a slice of length 0 (\<open>nil\<close> or empty), which is all that \<open>append\<close> and the
  \<open>omitempty\<close> tag look at.
\<close>

record partition =
  Id :: int32
  OldestOffset :: int64
  NewestOffset :: int64
  Leader :: gostring
  Replicas :: "int32 list"
  ISRs :: "int32 list"

record topic =
  Name :: gostring
  Partitions :: "partition list"

text \<open>A Go \<open>error\<close> value, by its message (what \<open>%v\<close> prints).\<close>

datatype error = Error gostring

fun Error_string :: "error \<Rightarrow> gostring" where
  "Error_string (Error msg) = msg"

text \<open>
  The methods of \<open>sarama.Client\<close> that topic.go calls: the external cluster client, taken
  as a parameter. Each method returns \<open>Inr\<close> its value or \<open>Inl\<close> its error; \<open>client_Leader\<close>
  gives the address \<open>Addr()\<close> of the leading broker.
\<close>

record Client =
  client_Topics :: "error + gostring list"
  client_Partitions :: "gostring \<Rightarrow> error + int32 list"
  client_GetOffset :: "gostring \<Rightarrow> int32 \<Rightarrow> int64 \<Rightarrow> error + int64"
  client_Leader :: "gostring \<Rightarrow> int32 \<Rightarrow> error + gostring"
  client_Replicas :: "gostring \<Rightarrow> int32 \<Rightarrow> error + int32 list"
  client_InSyncReplicas :: "gostring \<Rightarrow> int32 \<Rightarrow> error + int32 list"

abbreviation OffsetNewest :: int64 where "OffsetNewest \<equiv> - 1"
abbreviation OffsetOldest :: int64 where "OffsetOldest \<equiv> - 2"

text \<open>
  \<open>*regexp.Regexp\<close> is standard-library code. A compiled expression is represented by the
  set of strings it matches, and \<open>MatchString\<close> follows its documentation: it reports
  whether the string contains any match of the expression. \<open>sublists s\<close> lists the
  contiguous substrings of \<open>s\<close>. (Expressions with the anchors \<open>^\<close> and \<open>$\<close>, whose matches
  depend on the surrounding text, are outside this representation.)
\<close>

datatype regexp = Regexp (matches: "gostring \<Rightarrow> bool")

definition MatchString :: "regexp \<Rightarrow> gostring \<Rightarrow> bool" where
  "MatchString re s = list_ex (matches re) (sublists s)"

definition Compile_empty :: regexp where
  \<comment> \<open>\<open>regexp.Compile("")\<close>, the default of the flag \<open>-filter\<close>: the empty expression matches
      the empty string only\<close>
  "Compile_empty = Regexp (\<lambda>u. u = [])"

text \<open>The struct \<open>topicCmd\<close> after \<open>parseArgs\<close> and \<open>connect\<close> (without the sarama configuration).\<close>

record topicCmd =
  brokers :: "gostring list"
  filter_re :: regexp
  partitions :: bool
  leaders :: bool
  replicas :: bool
  verbose :: bool
  pretty :: bool
  client :: Client

subsection \<open>\<open>readTopic\<close>\<close>

text \<open>
  The body of the loop of \<open>readTopic\<close> for the partition \<open>p\<close>: \<open>Inl err\<close> is a
  \<open>return top, err\<close>, \<open>Inr np\<close> the partition that the loop appends.
\<close>

definition readPartition :: "topicCmd \<Rightarrow> gostring \<Rightarrow> int32 \<Rightarrow> error + partition" where
  "readPartition cmd name p =
     (let np = \<lparr>Id = p, OldestOffset = 0, NewestOffset = 0, Leader = [], Replicas = [], ISRs = []\<rparr>
      in case client_GetOffset (client cmd) name p OffsetOldest of
           Inl err \<Rightarrow> Inl err
         | Inr oldest \<Rightarrow>
        (case client_GetOffset (client cmd) name p OffsetNewest of
           Inl err \<Rightarrow> Inl err
         | Inr newest \<Rightarrow>
        (case (if leaders cmd
               then (case client_Leader (client cmd) name p of
                       Inl err \<Rightarrow> Inl err
                     | Inr addr \<Rightarrow> Inr (np\<lparr>OldestOffset := oldest, NewestOffset := newest, Leader := addr\<rparr>))
               else Inr (np\<lparr>OldestOffset := oldest, NewestOffset := newest\<rparr>)) of
           Inl err \<Rightarrow> Inl err
         | Inr np' \<Rightarrow>
             if replicas cmd
             then (case client_Replicas (client cmd) name p of
                     Inl err \<Rightarrow> Inl err
                   | Inr rs \<Rightarrow>
                  (case client_InSyncReplicas (client cmd) name p of
                     Inl err \<Rightarrow> Inl err
                   | Inr isrs \<Rightarrow> Inr (np'\<lparr>Replicas := rs, ISRs := isrs\<rparr>)))
             else Inr np')))"

text \<open>The loop \<open>for _, p := range ps\<close>; the result is the pair \<open>(topic, error)\<close> that Go returns.\<close>

fun readTopic_loop :: "topicCmd \<Rightarrow> gostring \<Rightarrow> int32 list \<Rightarrow> topic \<Rightarrow> topic \<times> error option" where
  "readTopic_loop cmd name [] tp = (tp, None)"
| "readTopic_loop cmd name (p # ps) tp =
     (case readPartition cmd name p of
        Inl err \<Rightarrow> (tp, Some err)
      | Inr np \<Rightarrow> readTopic_loop cmd name ps (tp\<lparr>Partitions := Partitions tp @ [np]\<rparr>))"

definition readTopic :: "topicCmd \<Rightarrow> gostring \<Rightarrow> topic \<times> error option" where
  "readTopic cmd name =
     (let tp = \<lparr>Name = name, Partitions = []\<rparr>
      in if \<not> partitions cmd then (tp, None)
         else (case client_Partitions (client cmd) name of
                 Inl err \<Rightarrow> (tp, Some err)
               | Inr ps \<Rightarrow> readTopic_loop cmd name ps tp))"

text \<open>
  The keys of the JSON object of a \<open>topic\<close>, from its struct tags \<open>json:"name"\<close> and
  \<open>json:"partitions,omitempty"\<close>: encoding/json leaves a field tagged \<open>omitempty\<close> out when
  its slice has length 0.
\<close>

definition topic_json_keys :: "topic \<Rightarrow> string list" where
  "topic_json_keys tp = ''name'' # (if Partitions tp = [] then [] else [''partitions''])"

subsection \<open>The worker, the serializer and \<open>run\<close>\<close>

text \<open>
  \<open>run\<close> starts one goroutine per selected topic, each calling \<open>cmd.print\<close> and then
  \<open>wg.Done()\<close>, and one goroutine for the serializer. The goroutines are modelled by their
  control states and the run by the interleaving of their steps.

  A worker is
  \<^item> \<open>WRead\<close>: before \<open>cmd.readTopic(name)\<close>;
  \<^item> \<open>WSend top\<close>: blocked in \<open>out <- ctx\<close> with the record \<open>top\<close>;
  \<^item> \<open>WWait\<close>: blocked in \<open><-ctx.done\<close>, the channel \<open>done\<close> still open;
  \<^item> \<open>WAcked\<close>: blocked in \<open><-ctx.done\<close>, the channel \<open>done\<close> closed;
  \<^item> \<open>WDone\<close>: after \<open>wg.Done()\<close>.
\<close>

datatype wstate = WRead | WSend topic | WWait | WAcked | WDone

text \<open>
  The serializer is either waiting for the next submission (\<open>SRecv\<close>) or holds the
  submission of worker \<open>i\<close> that it has received and not yet written (\<open>SWrite i top\<close>).
\<close>

datatype sstate = SRecv | SWrite nat topic

record pstate =
  workers :: "(gostring \<times> wstate) list"
  serializer :: sstate
  stdout :: "topic list"
  stderr :: "gostring list"
  out_closed :: bool
  returned :: bool

definition diagnostic :: "gostring \<Rightarrow> error \<Rightarrow> gostring" where
  \<comment> \<open>\<open>fmt.Fprintf(os.Stderr, "failed to read info for topic %s. err=%v\n", name, err)\<close>\<close>
  "diagnostic name err =
     ''failed to read info for topic '' @ name @ ''. err='' @ Error_string err @ [CHR 0x0A]"

text \<open>
  The steps of \<open>cmd.print\<close> in worker \<open>i\<close>: \<open>Read\<close> runs \<open>readTopic\<close> and either reports its
  error on stderr and returns, or goes on to send the record; \<open>Send\<close> is the rendezvous on
  the unbuffered channel \<open>out\<close> with the waiting serializer (a send on a closed channel
  would panic); \<open>Ack\<close> is the receive from the closed channel \<open>done\<close>, after which the
  worker returns and calls \<open>wg.Done()\<close>. \<open>Return\<close> is \<open>wg.Wait()\<close> in \<open>run\<close>, which returns
  once every worker is done.
\<close>

datatype event = Read nat | Send nat | Write | Ack nat | Return

definition worker_read :: "topicCmd \<Rightarrow> nat \<Rightarrow> pstate \<Rightarrow> pstate option" where
  "worker_read cmd i s =
     (if i < length (workers s) \<and> snd (workers s ! i) = WRead then
        (let name = fst (workers s ! i)
         in case readTopic cmd name of
              (tp, Some err) \<Rightarrow>
                Some (s\<lparr>workers := (workers s)[i := (name, WDone)],
                        stderr := stderr s @ [diagnostic name err]\<rparr>)
            | (tp, None) \<Rightarrow> Some (s\<lparr>workers := (workers s)[i := (name, WSend tp)]\<rparr>))
      else None)"

definition worker_send :: "nat \<Rightarrow> pstate \<Rightarrow> pstate option" where
  "worker_send i s =
     (if i < length (workers s) \<and> serializer s = SRecv \<and> \<not> out_closed s then
        (case workers s ! i of
           (name, WSend tp) \<Rightarrow>
             Some (s\<lparr>workers := (workers s)[i := (name, WWait)], serializer := SWrite i tp\<rparr>)
         | _ \<Rightarrow> None)
      else None)"

definition worker_ack :: "nat \<Rightarrow> pstate \<Rightarrow> pstate option" where
  "worker_ack i s =
     (if i < length (workers s) \<and> snd (workers s ! i) = WAcked
      then Some (s\<lparr>workers := (workers s)[i := (fst (workers s ! i), WDone)]\<rparr>)
      else None)"

text \<open>
  Modelled from the spec: the serializer task, the package-level function \<open>print\<close> that \<open>run\<close>
  starts with \<open>go print(out, cmd.pretty)\<close>, is not among the source files. By the
  specification it receives completed records one at a time over the channel, is the only
  one to write to the sink, writes one full record at a time and then signals
  "write complete" on the acknowledgment channel of that submission.
\<close>

definition serializer_write :: "pstate \<Rightarrow> pstate option" where
  "serializer_write s =
     (case serializer s of
        SRecv \<Rightarrow> None
      | SWrite i tp \<Rightarrow>
          Some (s\<lparr>stdout := stdout s @ [tp],
                  workers := (workers s)[i := (fst (workers s ! i), WAcked)],
                  serializer := SRecv\<rparr>))"

definition all_done :: "pstate \<Rightarrow> bool" where
  "all_done s = list_all (\<lambda>w. snd w = WDone) (workers s)"

definition wait_return :: "pstate \<Rightarrow> pstate option" where
  "wait_return s = (if all_done s \<and> \<not> returned s then Some (s\<lparr>returned := True\<rparr>) else None)"

fun step :: "topicCmd \<Rightarrow> event \<Rightarrow> pstate \<Rightarrow> pstate option" where
  "step cmd (Read i) s = worker_read cmd i s"
| "step cmd (Send i) s = worker_send i s"
| "step cmd Write s = serializer_write s"
| "step cmd (Ack i) s = worker_ack i s"
| "step cmd Return s = wait_return s"

text \<open>
  A schedule is the list of the steps in the order in which they happen; \<open>exec\<close> is \<open>None\<close>
  when a step of the schedule is not enabled where it stands.
\<close>

fun exec :: "topicCmd \<Rightarrow> event list \<Rightarrow> pstate \<Rightarrow> pstate option" where
  "exec cmd [] s = Some s"
| "exec cmd (e # es) s = (case step cmd e s of None \<Rightarrow> None | Some s' \<Rightarrow> exec cmd es s')"

text \<open>
  The state in which \<open>run\<close> has made the channel \<open>out\<close>, started the serializer and started
  one worker for each selected topic.
\<close>

definition init :: "gostring list \<Rightarrow> pstate" where
  "init topics =
     \<lparr>workers = map (\<lambda>tn. (tn, WRead)) topics, serializer = SRecv, stdout = [], stderr = [],
      out_closed = False, returned = False\<rparr>"

text \<open>The loop of \<open>run\<close> that selects the topics: \<open>if cmd.filter.MatchString(a)\<close>.\<close>

definition select_topics :: "topicCmd \<Rightarrow> gostring list \<Rightarrow> gostring list" where
  "select_topics cmd all = filter (MatchString (filter_re cmd)) all"

text \<open>
  \<open>run\<close> from the listing of the topics on. \<open>failf\<close> prints its message on stderr and ends
  the process with \<open>os.Exit(1)\<close>; otherwise \<open>run\<close> returns to its caller, and it returns no
  value. The result is \<open>None\<close> when the schedule is not one of this run.
\<close>

datatype run_end = Exit nat gostring | Finished pstate

definition failf :: "gostring \<Rightarrow> run_end" where
  "failf msg = Exit 1 (msg @ [CHR 0x0A])"

definition run :: "topicCmd \<Rightarrow> event list \<Rightarrow> run_end option" where
  "run cmd sched =
     (case client_Topics (client cmd) of
        Inl err \<Rightarrow> Some (failf (''failed to read topics err='' @ Error_string err))
      | Inr all \<Rightarrow> map_option Finished (exec cmd sched (init (select_topics cmd all))))"

fun exit_status :: "run_end \<Rightarrow> nat option" where
  \<comment> \<open>the status that \<open>run\<close> itself gives the process, if any\<close>
  "exit_status (Exit n msg) = Some n"
| "exit_status (Finished s) = None"

subsection \<open>Failure of a retrieval, as the specification words it\<close>

text \<open>
  The retrieval of a topic fails when the partition detail is requested and the listing of
  the partitions fails, or for some listed partition the oldest offset, the newest
  offset, the leader (if requested), the replicas or the in-sync replicas (if requested)
  fail.
\<close>

definition partition_fails :: "topicCmd \<Rightarrow> gostring \<Rightarrow> int32 \<Rightarrow> bool" where
  "partition_fails cmd name p =
     (isl (client_GetOffset (client cmd) name p OffsetOldest)
      \<or> isl (client_GetOffset (client cmd) name p OffsetNewest)
      \<or> (leaders cmd \<and> isl (client_Leader (client cmd) name p))
      \<or> (replicas cmd \<and> (isl (client_Replicas (client cmd) name p)
                          \<or> isl (client_InSyncReplicas (client cmd) name p))))"

definition retrieval_fails :: "topicCmd \<Rightarrow> gostring \<Rightarrow> bool" where
  "retrieval_fails cmd name =
     (partitions cmd \<and>
      (case client_Partitions (client cmd) name of
         Inl err \<Rightarrow> True
       | Inr ps \<Rightarrow> list_ex (partition_fails cmd name) ps))"

text \<open>
  The records of the topics whose retrieval succeeds and the diagnostic lines of those
  whose retrieval fails, in the order of the topics.
\<close>

definition successes :: "topicCmd \<Rightarrow> gostring list \<Rightarrow> topic list" where
  "successes cmd topics =
     map (\<lambda>tn. fst (readTopic cmd tn)) (filter (\<lambda>tn. \<not> retrieval_fails cmd tn) topics)"

definition diagnostics :: "topicCmd \<Rightarrow> gostring list \<Rightarrow> gostring list" where
  "diagnostics cmd topics =
     concat (map (\<lambda>tn. case snd (readTopic cmd tn) of
                          Some err \<Rightarrow> [diagnostic tn err]
                        | None \<Rightarrow> []) topics)"

subsection \<open>The invariant of a run\<close>

text \<open>
  What a worker in a given control state has contributed to stdout and to stderr, what
  its state says about its retrieval, and how the serializer and the worker whose
  submission it holds agree.
\<close>

definition written :: "topicCmd \<Rightarrow> gostring \<times> wstate \<Rightarrow> topic multiset" where
  "written cmd w =
     (if snd w = WAcked \<or> (snd w = WDone \<and> snd (readTopic cmd (fst w)) = None)
      then {#fst (readTopic cmd (fst w))#} else {#})"

definition reported :: "topicCmd \<Rightarrow> gostring \<times> wstate \<Rightarrow> gostring multiset" where
  "reported cmd w =
     (if snd w = WDone
      then (case snd (readTopic cmd (fst w)) of
              Some err \<Rightarrow> {#diagnostic (fst w) err#}
            | None \<Rightarrow> {#})
      else {#})"

definition worker_ok :: "topicCmd \<Rightarrow> sstate \<Rightarrow> nat \<Rightarrow> gostring \<times> wstate \<Rightarrow> bool" where
  "worker_ok cmd ser i w =
     (case snd w of
        WRead \<Rightarrow> True
      | WSend tp \<Rightarrow> readTopic cmd (fst w) = (tp, None)
      | WWait \<Rightarrow> ser = SWrite i (fst (readTopic cmd (fst w))) \<and> snd (readTopic cmd (fst w)) = None
      | WAcked \<Rightarrow> snd (readTopic cmd (fst w)) = None
      | WDone \<Rightarrow> True)"

definition serializer_ok :: "pstate \<Rightarrow> bool" where
  "serializer_ok s =
     (case serializer s of
        SRecv \<Rightarrow> True
      | SWrite i tp \<Rightarrow> i < length (workers s) \<and> snd (workers s ! i) = WWait)"

definition inv :: "topicCmd \<Rightarrow> gostring list \<Rightarrow> pstate \<Rightarrow> bool" where
  "inv cmd topics s =
     (map fst (workers s) = topics
      \<and> (\<forall>i < length (workers s). worker_ok cmd (serializer s) i (workers s ! i))
      \<and> serializer_ok s
      \<and> mset (stdout s) = sum_list (map (written cmd) (workers s))
      \<and> mset (stderr s) = sum_list (map (reported cmd) (workers s))
      \<and> \<not> out_closed s
      \<and> (returned s \<longrightarrow> all_done s))"

text \<open>The number of steps that a run can still take is bounded by \<open>remaining\<close>.\<close>

fun weight :: "wstate \<Rightarrow> nat" where
  "weight WRead = 4"
| "weight (WSend tp) = 3"
| "weight WWait = 2"
| "weight WAcked = 1"
| "weight WDone = 0"

definition remaining :: "pstate \<Rightarrow> nat" where
  "remaining s = sum_list (map (\<lambda>w. weight (snd w)) (workers s)) + (if returned s then 0 else 1)"

subsection \<open>A cluster of three topics\<close>

text \<open>
  A client for the examples: \<open>orders\<close> has one partition, the listing of the partitions of
  \<open>audit\<close> fails, and \<open>empty\<close> has no partition. \<open>demo_schedule\<close> is one interleaving of the
  run over the three topics and \<open>demo_final\<close> the state it ends in.
\<close>

definition demo_client :: Client where
  "demo_client =
     \<lparr>client_Topics = Inr [''orders'', ''audit'', ''empty''],
      client_Partitions =
        (\<lambda>tn. if tn = ''audit'' then Inl (Error ''unknown topic'')
              else if tn = ''empty'' then Inr [] else Inr [0]),
      client_GetOffset = (\<lambda>tn p which. Inr (if which = OffsetOldest then 5 else 42)),
      client_Leader = (\<lambda>tn p. Inr ''broker1:9092''),
      client_Replicas = (\<lambda>tn p. Inr [1, 2]),
      client_InSyncReplicas = (\<lambda>tn p. Inr [1])\<rparr>"

definition demo_cmd :: "bool \<Rightarrow> topicCmd" where
  "demo_cmd parts =
     \<lparr>brokers = [''localhost:9092''], filter_re = Compile_empty, partitions = parts,
      leaders = False, replicas = False, verbose = False, pretty = True, client = demo_client\<rparr>"

definition demo_schedule :: "event list" where
  "demo_schedule = [Read 1, Read 0, Send 0, Read 2, Write, Send 2, Ack 0, Write, Ack 2, Return]"

definition orders_record :: topic where
  "orders_record =
     \<lparr>Name = ''orders'',
      Partitions = [\<lparr>Id = 0, OldestOffset = 5, NewestOffset = 42, Leader = [], Replicas = [],
                     ISRs = []\<rparr>]\<rparr>"

definition demo_final :: pstate where
  "demo_final =
     \<lparr>workers = [(''orders'', WDone), (''audit'', WDone), (''empty'', WDone)],
      serializer = SRecv,
      stdout = [orders_record, \<lparr>Name = ''empty'', Partitions = []\<rparr>],
      stderr = [diagnostic ''audit'' (Error ''unknown topic'')],
      out_closed = False, returned = True\<rparr>"

text \<open>
  With the partition detail switched off no retrieval can fail; \<open>quiet_schedule\<close> is an
  interleaving of that run and \<open>quiet_final\<close> the state it ends in.
\<close>

definition quiet_schedule :: "event list" where
  "quiet_schedule =
     [Read 0, Read 1, Read 2, Send 1, Write, Ack 1, Send 0, Write, Send 2, Write, Ack 2, Ack 0,
      Return]"

definition quiet_final :: pstate where
  "quiet_final =
     \<lparr>workers = [(''orders'', WDone), (''audit'', WDone), (''empty'', WDone)],
      serializer = SRecv,
      stdout = [\<lparr>Name = ''audit'', Partitions = []\<rparr>, \<lparr>Name = ''orders'', Partitions = []\<rparr>,
                \<lparr>Name = ''empty'', Partitions = []\<rparr>],
      stderr = [],
      out_closed = False, returned = True\<rparr>"

section \<open>Properties of the partition hasher\<close>

subsection \<open>Ranging over a string yields code points\<close>

lemma and1f: "(s AND 0x1F :: byte) = take_bit 5 s" by (simp add: take_bit_eq_mask mask_eq_exp_minus_1)
lemma and3f: "(s AND 0x3F :: byte) = take_bit 6 s" by (simp add: take_bit_eq_mask mask_eq_exp_minus_1)
lemma and0f: "(s AND 0x0F :: byte) = take_bit 4 s" by (simp add: take_bit_eq_mask mask_eq_exp_minus_1)

lemma two_byte_bits:
  "take_bit 11 (push_bit 6 (rune_of (s0 AND mask2)) OR rune_of (s1 AND maskx))
     = push_bit 6 (rune_of (s0 AND mask2)) OR rune_of (s1 AND maskx)"
  unfolding and1f and3f rune_of_def
  by (rule bit_word_eqI) (auto simp: bit_simps)

lemma three_byte_bits:
  "take_bit 16 (push_bit 12 (rune_of (s0 AND mask3)) OR push_bit 6 (rune_of (s1 AND maskx))
       OR rune_of (s2 AND maskx))
     = push_bit 12 (rune_of (s0 AND mask3)) OR push_bit 6 (rune_of (s1 AND maskx))
       OR rune_of (s2 AND maskx)"
  unfolding and0f and3f rune_of_def
  by (rule bit_word_eqI) (auto simp: bit_simps)

lemma uint_lt_of_take_bit:
  fixes r :: "32 word"
  assumes "take_bit n r = r"
  shows "uint r < 2 ^ n"
proof -
  have "uint r = take_bit n (uint r)"
    using assms by (metis unsigned_take_bit_eq)
  then show ?thesis by (metis take_bit_int_less_exp)
qed

lemma valid_rune_uint: "valid_rune r \<longleftrightarrow> uint r \<le> 0x10FFFF"
  by (simp add: valid_rune_def word_le_def)

lemma valid_rune_take_bit:
  fixes r :: rune
  assumes "take_bit n r = r" and "n \<le> 16"
  shows "valid_rune r"
proof -
  have "uint r < 2 ^ n" using assms(1) by (rule uint_lt_of_take_bit)
  also have "(2::int) ^ n \<le> 2 ^ 16" using assms(2) by (intro power_increasing) simp_all
  finally show ?thesis by (simp add: valid_rune_uint)
qed

lemma valid_rune_signed:
  fixes r :: rune
  assumes "0xFFFF <s r" and "r \<le>s 0x10FFFF"
  shows "valid_rune r"
proof -
  have a: "0 \<le> sint r" "sint r \<le> 0x10FFFF"
    using assms by (simp_all add: word_sless_alt word_sle_eq)
  have "uint r = take_bit 32 (sint r)" by (simp add: uint_sint)
  also have "\<dots> = sint r" using a by (simp add: take_bit_int_eq_self)
  finally show ?thesis using a by (simp add: valid_rune_uint)
qed

lemma valid_rune_ascii: "valid_rune (rune_of b)"
proof -
  have lt: "uint b < 2 ^ 8" using uint_lt2p [of b] by simp
  then have "take_bit 32 (uint b) = uint b" by (intro take_bit_int_eq_self) simp_all
  then have "uint (ucast b :: rune) = uint b" by (simp add: unsigned_ucast_eq)
  with lt show ?thesis by (simp add: valid_rune_uint rune_of_def)
qed

lemma valid_runeError [simp]: "valid_rune runeError"
  by (simp add: valid_rune_def)

lemma decoderune_valid: "decoderune s = (r, w) \<Longrightarrow> valid_rune r"
  by (cases s)
     (auto simp: Let_def valid_rune_signed
           intro: valid_rune_take_bit [OF two_byte_bits] valid_rune_take_bit [OF three_byte_bits]
           split: if_splits list.splits)

lemma range_runes_valid: "r \<in> set (range_runes s) \<Longrightarrow> valid_rune r"
proof (induction s arbitrary: r rule: range_runes.induct)
  case 1
  then show ?case by simp
next
  case (2 b bs)
  show ?case
  proof (cases "b < runeSelf")
    case True
    with 2 show ?thesis by (auto simp: valid_rune_ascii)
  next
    case False
    obtain r' w where d: "decoderune (b # bs) = (r', w)" by (cases "decoderune (b # bs)")
    with False 2 show ?thesis by (auto simp del: decoderune.simps simp: decoderune_valid)
  qed
qed

subsection \<open>Surrogate pairs\<close>

lemma valid_rune_unat: "valid_rune r \<longleftrightarrow> unat r \<le> 0x10FFFF"
  by (simp add: valid_rune_def word_le_nat_alt)

lemma ucast_unit:
  assumes "n < 2 ^ 16"
  shows "(ucast (of_nat n :: 16 word) :: int32) = of_nat n"
proof (rule unsigned_word_eqI [where ?'a = nat])
  have "unat (ucast (of_nat n :: 16 word) :: int32) = n"
    using assms by (simp add: unsigned_ucast_eq unat_of_nat take_bit_nat_eq_self)
  moreover have "unat (of_nat n :: int32) = n"
    using assms by (simp add: unat_of_nat)
  ultimately show "unat (ucast (of_nat n :: 16 word) :: int32) = unat (of_nat n :: int32)" by simp
qed

lemma sint_valid:
  assumes "valid_rune r"
  shows "sint r = uint r"
proof -
  have "0 \<le> uint r" "uint r < 2 ^ 31"
    using assms by (simp_all add: valid_rune_uint)
  then have "- (2 ^ 31) \<le> uint r" "uint r < 2 ^ 31" by linarith+
  then have "signed_take_bit 31 (uint r) = uint r"
    by (rule signed_take_bit_int_eq_self)
  then show ?thesis by (simp add: sint_uint)
qed

lemma low_bits:
  fixes x :: int32
  shows "x AND 0x3FF = of_nat (unat x mod 0x400)"
proof -
  have "x AND 0x3FF = take_bit 10 x" by (simp add: take_bit_eq_mask mask_eq_exp_minus_1)
  also have "\<dots> = of_nat (unat (take_bit 10 x))" by simp
  also have "unat (take_bit 10 x) = unat x mod 0x400"
    unfolding unsigned_take_bit_eq by (simp add: take_bit_eq_mod)
  finally show ?thesis .
qed

lemma high_bits:
  fixes x :: int32
  assumes "unat x < 2 ^ 20"
  shows "signed_drop_bit 10 x AND 0x3FF = of_nat (unat x div 0x400)"
proof -
  have "unat (take_bit 20 x) = unat x"
    using assms by (simp add: unsigned_take_bit_eq take_bit_nat_eq_self)
  then have tb: "take_bit 20 x = x" by (rule unsigned_word_eqI)
  have "\<not> bit x 31"
  proof
    assume "bit x 31"
    then have "bit (take_bit 20 x) 31" by (simp only: tb)
    then show False by (simp add: bit_take_bit_iff)
  qed
  then have "signed_drop_bit 10 x = drop_bit 10 x"
    by (intro bit_word_eqI) (auto simp: bit_signed_drop_bit_iff bit_drop_bit_eq dest: bit_imp_le_length)
  then have "signed_drop_bit 10 x AND 0x3FF = of_nat (unat (drop_bit 10 x) mod 0x400)"
    by (simp add: low_bits)
  also have "unat (drop_bit 10 x) = unat x div 0x400"
    unfolding unat_drop_bit_eq by (simp add: drop_bit_eq_div)
  also have "(unat x div 0x400) mod 0x400 = unat x div 0x400"
    using assms by (intro mod_less) simp
  finally show ?thesis .
qed

lemma EncodeRune_bmp:
  assumes "valid_rune r" and "unat r < 0x10000"
  shows "EncodeRune r = (0xFFFD, 0xFFFD)"
proof -
  have "uint r = int (unat r)" by simp
  with assms(2) have "uint r < 0x10000" by linarith
  then have "r <s surrSelf"
    using assms(1) by (simp add: word_sless_alt sint_valid)
  then show ?thesis by (simp add: EncodeRune_def)
qed

lemma EncodeRune_pair:
  assumes "valid_rune r" and "\<not> unat r < 0x10000"
  shows "EncodeRune r = (of_nat (0xD800 + (unat r - 0x10000) div 0x400),
                         of_nat (0xDC00 + (unat r - 0x10000) mod 0x400))"
proof -
  have "uint r = int (unat r)" by simp
  with assms have "\<not> uint r < 0x10000" "\<not> 0x10FFFF < uint r"
    unfolding valid_rune_unat by linarith+
  then have n: "\<not> r <s surrSelf" "\<not> maxRune <s r"
    using assms(1) by (simp_all add: word_sless_alt sint_valid)
  have "surrSelf \<le> r" using assms(2) by (simp add: word_le_nat_alt)
  then have u: "unat (r - surrSelf) = unat r - 0x10000" by (simp add: unat_sub)
  then have "unat (r - surrSelf) < 2 ^ 20"
    using assms(1) by (simp add: valid_rune_unat)
  then have "signed_drop_bit 10 (r - surrSelf) AND 0x3FF = of_nat ((unat r - 0x10000) div 0x400)"
    using high_bits [of "r - surrSelf"] u by simp
  moreover have "(r - surrSelf) AND 0x3FF = of_nat ((unat r - 0x10000) mod 0x400)"
    using low_bits [of "r - surrSelf"] u by simp
  ultimately show ?thesis using n by (simp add: EncodeRune_def Let_def)
qed

lemma hashCode_step_units:
  assumes "valid_rune r"
  shows "hashCode_step hc r = foldl accumulate hc (utf16_of_code_point (unat r))"
proof (cases "unat r < 0x10000")
  case True
  then have "(ucast (of_nat (unat r) :: 16 word) :: int32) = r"
    using ucast_unit [of "unat r"] by simp
  with True assms show ?thesis
    by (simp add: hashCode_step_def EncodeRune_bmp utf16_of_code_point_def bmp_def accumulate_def)
next
  case False
  define h where "h = 0xD800 + (unat r - 0x10000) div 0x400"
  define l where "l = 0xDC00 + (unat r - 0x10000) mod 0x400"
  have hb: "h < 0xDC00" using assms by (simp add: h_def valid_rune_unat)
  have lb: "l < 0xE000" by (simp add: l_def)
  have e: "EncodeRune r = (of_nat h, of_nat l)"
    using assms False by (simp add: EncodeRune_pair h_def l_def)
  have "unat (of_nat h :: int32) = h" using hb by (simp add: unat_of_nat)
  then have "unat (of_nat h :: int32) \<noteq> unat (0xFFFD :: int32)" using hb by simp
  then have ne: "(of_nat h :: int32) \<noteq> 0xFFFD" by metis
  have "(ucast (of_nat h :: 16 word) :: int32) = of_nat h"
    and "(ucast (of_nat l :: 16 word) :: int32) = of_nat l"
    using hb lb by (simp_all add: ucast_unit)
  with False e ne show ?thesis
    by (simp add: hashCode_step_def utf16_of_code_point_def bmp_def high_surrogate_def
          low_surrogate_def accumulate_def h_def l_def)
qed

lemma foldl_hashCode_step:
  assumes "\<forall>r \<in> set rs. valid_rune r"
  shows "foldl hashCode_step hc rs = foldl accumulate hc (concat (map (utf16_of_code_point \<circ> unat) rs))"
  using assms by (induction rs arbitrary: hc) (simp_all add: hashCode_step_units)

lemma length_utf16_units:
  "length (concat (map utf16_of_code_point cps))
     = length (filter bmp cps) + 2 * length (filter (\<lambda>cp. \<not> bmp cp) cps)"
  by (induction cps) (simp_all add: utf16_of_code_point_def)

subsection \<open>Absolute value and remainder\<close>

lemma sint_min_iff:
  fixes i :: int32
  shows "i = - 2147483648 \<longleftrightarrow> sint i = - 2147483648"
proof
  assume "i = - 2147483648" then show "sint i = - 2147483648" by simp
next
  assume "sint i = - 2147483648"
  then have "word_of_int (sint i) = (word_of_int (- 2147483648) :: int32)" by simp
  then show "i = - 2147483648" by simp
qed

lemma sint_range32:
  fixes i :: int32
  shows "- 2147483648 \<le> sint i" and "sint i < 2147483648"
  using sint_greater_eq [of i] sint_less [of i] by simp_all

lemma sint_word_of_int_small:
  assumes "0 \<le> k" and "k < 2147483648"
  shows "sint (word_of_int k :: int32) = k"
proof -
  have "- (2 ^ 31) \<le> k" "k < 2 ^ 31" using assms by simp_all
  then have "signed_take_bit 31 k = k" by (rule signed_take_bit_int_eq_self)
  then show ?thesis by (simp add: sint_sbintrunc')
qed

lemma sint_kafkaAbs:
  "sint (kafkaAbs i) = (if sint i = - 2147483648 then 0 else \<bar>sint i\<bar>)"
proof (cases "i = - 2147483648")
  case True
  then show ?thesis by (simp add: kafkaAbs_def)
next
  case False
  then have ne: "sint i \<noteq> - 2147483648" by (simp add: sint_min_iff)
  show ?thesis
  proof (cases "i <s 0")
    case True
    then have neg: "sint i < 0" by (simp add: word_sless_alt)
    have "0 \<le> - sint i" "- sint i < 2147483648"
      using neg ne sint_range32 [of i] by linarith+
    then have "sint (word_of_int (- sint i) :: int32) = - sint i"
      by (rule sint_word_of_int_small)
    moreover have "(word_of_int (- sint i) :: int32) = i * (- 1)" by simp
    ultimately have "sint (i * (- 1)) = - sint i" by simp
    with False True neg ne show ?thesis by (simp add: kafkaAbs_def)
  next
    case nn: False
    then have "0 \<le> sint i" by (simp add: word_sless_alt)
    with False nn ne show ?thesis by (simp add: kafkaAbs_def)
  qed
qed

lemma kafkaAbs_nonneg: "0 \<le> sint (kafkaAbs i)"
  by (simp add: sint_kafkaAbs)

lemma go_rem_pos:
  assumes "0 \<le> sint a" and "0 < sint b"
  shows "\<exists>p. go_rem a b = Some p \<and> sint p = sint a mod sint b"
proof -
  have b0: "b \<noteq> 0" using assms(2) by auto
  have m: "sint a smod sint b = sint a mod sint b"
    using assms by (simp add: signed_modulo_int_def sgn_if)
  have "0 \<le> sint a mod sint b" "sint a mod sint b < sint b"
    using assms(2) by simp_all
  moreover have "sint b < 2147483648" by (rule sint_range32)
  ultimately have "sint (word_of_int (sint a mod sint b) :: int32) = sint a mod sint b"
    by (intro sint_word_of_int_small) simp_all
  with b0 m show ?thesis by (simp add: go_rem_def)
qed

lemma hashCodePartition_pos:
  assumes "0 <s n"
  shows "\<exists>p. hashCodePartition key n = Some p \<and> sint p = sint (kafkaAbs (hashCode key)) mod sint n"
proof -
  have pos: "0 < sint n" using assms by (simp add: word_sless_alt)
  then have "\<not> n \<le>s 0" by (simp add: word_sle_eq)
  then show ?thesis
    using go_rem_pos [OF kafkaAbs_nonneg pos] by (simp add: hashCodePartition_def)
qed

section \<open>The claims about the partition hasher\<close>

text \<open>
  C1. For every input string, \<open>hashCode\<close> is the fold of \<open>hash = hash * 31 + codeUnit\<close>,
  in 32-bit arithmetic and starting from 0, over the UTF-16 code unit sequence of the string.
  In that sequence every code point of the Basic Multilingual Plane is exactly one code
  unit and every code point beyond it exactly two (high surrogate, then low surrogate), so
  the number of accumulation steps is the number of BMP code points plus twice the number
  of the others. The empty string hashes to 0 and the string \<open>a\<close> to 97.
\<close>

theorem hashCode_folds_utf16_code_units:
  "hashCode s = foldl accumulate 0 (utf16_code_units s)
   \<and> utf16_code_units s = concat (map utf16_of_code_point (code_points s))
   \<and> length (utf16_code_units s)
       = length (filter bmp (code_points s)) + 2 * length (filter (\<lambda>cp. \<not> bmp cp) (code_points s))
   \<and> hashCode [] = 0
   \<and> hashCode ''a'' = 97"
proof -
  have "hashCode s = foldl accumulate 0 (utf16_code_units s)"
    by (simp add: hashCode_def utf16_code_units_def code_points_def foldl_hashCode_step
          range_runes_valid)
  moreover have "hashCode [] = 0"
    by (simp add: hashCode_def bytes_def)
  moreover have "hashCode ''a'' = 97"
    by (simp add: hashCode_def bytes_def byte_of_def rune_of_def hashCode_step_def EncodeRune_def)
  ultimately show ?thesis
    by (simp add: utf16_code_units_def length_utf16_units)
qed

text \<open>
  The string of the single code point U+1F600 (four bytes in UTF-8) has the two code units
  \<open>0xD83D\<close>, \<open>0xDE00\<close> and hashes in two steps to \<open>0xD83D * 31 + 0xDE00\<close>.
\<close>

theorem hashCode_folds_utf16_code_units_witness:
  "hashCode [CHR 0xF0, CHR 0x9F, CHR 0x98, CHR 0x80] = foldl accumulate 0 [0xD83D, 0xDE00]
   \<and> code_points [CHR 0xF0, CHR 0x9F, CHR 0x98, CHR 0x80] = [0x1F600]
   \<and> hashCode [CHR 0xF0, CHR 0x9F, CHR 0x98, CHR 0x80] = 1772899"
proof -
  let ?s = "[CHR 0xF0, CHR 0x9F, CHR 0x98, CHR 0x80]"
  have cp: "code_points ?s = [0x1F600]"
    by (simp add: code_points_def bytes_def byte_of_def rune_of_def cont_def)
  have cu: "utf16_code_units ?s = [0xD83D, 0xDE00]"
    by (simp add: utf16_code_units_def cp utf16_of_code_point_def bmp_def high_surrogate_def
          low_surrogate_def)
  have "hashCode ?s = foldl accumulate 0 (utf16_code_units ?s)"
    using hashCode_folds_utf16_code_units [of ?s] by (rule conjunct1)
  then have h: "hashCode ?s = foldl accumulate 0 [0xD83D, 0xDE00]"
    by (simp only: cu)
  have "foldl accumulate 0 [0xD83D, 0xDE00] = 1772899"
    by (simp add: accumulate_def)
  with h cp show ?thesis by simp
qed

text \<open>
  C2. For every key and every partition count \<open>n > 0\<close>, \<open>hashCodePartition key n\<close> returns
  a partition \<open>p\<close> with \<open>0 \<le> p < n\<close> (as signed 32-bit integers).
\<close>

theorem hashCodePartition_in_range:
  "0 <s n \<Longrightarrow> \<exists>p. hashCodePartition key n = Some p \<and> 0 \<le>s p \<and> p <s n"
proof -
  assume a: "0 <s n"
  then have pos: "0 < sint n" by (simp add: word_sless_alt)
  from hashCodePartition_pos [OF a] obtain p where
    p: "hashCodePartition key n = Some p" "sint p = sint (kafkaAbs (hashCode key)) mod sint n"
    by blast
  have "0 \<le> sint p" "sint p < sint n" using pos by (simp_all add: p(2))
  then show ?thesis using p(1) by (simp add: word_sle_eq word_sless_alt)
qed

theorem hashCodePartition_in_range_witness:
  "(0::int32) <s 7 \<and> (\<exists>p. hashCodePartition ''abc'' 7 = Some p \<and> 0 \<le>s p \<and> p <s 7)"
proof -
  have n: "(0::int32) <s 7" by (simp add: word_sless_alt)
  from hashCodePartition_in_range [OF n, of "''abc''"] n show ?thesis by simp
qed

text \<open>
  C3. \<open>kafkaAbs\<close> maps the least 32-bit signed integer to 0 (where the negation \<open>i * -1\<close> of
  the second branch would wrap around to the same negative value), and for every partition
  count \<open>n > 0\<close> a key whose hash is that integer is assigned partition 0.
\<close>

theorem min_hash_partition_zero:
  "kafkaAbs (- 2147483648) = 0
   \<and> (0 <s n \<and> hashCode key = - 2147483648 \<longrightarrow> hashCodePartition key n = Some 0)"
proof -
  have "hashCodePartition key n = Some 0" if n: "0 <s n" and h: "hashCode key = - 2147483648"
  proof -
    from hashCodePartition_pos [OF n] obtain p where
      p: "hashCodePartition key n = Some p" "sint p = sint (kafkaAbs (hashCode key)) mod sint n"
      by blast
    have "sint p = 0" by (simp add: p(2) h kafkaAbs_def)
    then have "p = 0" by (metis sint_0 signed_word_eqI)
    with p(1) show ?thesis by simp
  qed
  then show ?thesis by (simp add: kafkaAbs_def)
qed

text \<open>
  The hash of \<open>polygenelubricants\<close> is the least 32-bit signed integer; with 7 partitions the
  key goes to partition 0.
\<close>

theorem min_hash_partition_zero_witness:
  "(0::int32) <s 7 \<and> hashCode ''polygenelubricants'' = - 2147483648
   \<and> hashCodePartition ''polygenelubricants'' 7 = Some 0"
proof -
  have h: "hashCode ''polygenelubricants'' = - 2147483648"
    by (simp add: hashCode_def bytes_def byte_of_def rune_of_def hashCode_step_def EncodeRune_def)
  have n: "(0::int32) <s 7" by (simp add: word_sless_alt)
  from min_hash_partition_zero [of 7 "''polygenelubricants''"] n h show ?thesis by simp
qed

text \<open>
  C4. For every key and every partition count \<open>n \<le> 0\<close> (0 and -5 among them),
  \<open>hashCodePartition key n\<close> returns -1. It is the only failure: the function never
  panics (the remainder is never taken by zero), and for \<open>n > 0\<close> the result is not -1.
\<close>

theorem hashCodePartition_sentinel:
  "(n \<le>s 0 \<longrightarrow> hashCodePartition key n = Some (- 1))
   \<and> (\<not> n \<le>s 0 \<longrightarrow> (\<exists>p. hashCodePartition key n = Some p \<and> p \<noteq> - 1))
   \<and> hashCodePartition key 0 = Some (- 1)
   \<and> hashCodePartition key (- 5) = Some (- 1)"
proof -
  have "\<exists>p. hashCodePartition key n = Some p \<and> p \<noteq> - 1" if "\<not> n \<le>s 0"
  proof -
    from that have n: "0 <s n" by (simp add: word_sle_eq word_sless_alt)
    then have pos: "0 < sint n" by (simp add: word_sless_alt)
    from hashCodePartition_pos [OF n] obtain p where
      p: "hashCodePartition key n = Some p" "sint p = sint (kafkaAbs (hashCode key)) mod sint n"
      by blast
    have "0 \<le> sint p" using pos by (simp add: p(2))
    then have "p \<noteq> - 1" by auto
    with p(1) show ?thesis by simp
  qed
  moreover have "(0 :: int32) \<le>s 0" "(- 5 :: int32) \<le>s 0"
    by (simp_all add: word_sle_eq)
  ultimately show ?thesis by (simp add: hashCodePartition_def)
qed

theorem hashCodePartition_sentinel_witness:
  "hashCodePartition ''abc'' 0 = Some (- 1)
   \<and> hashCodePartition ''abc'' (- 5) = Some (- 1)
   \<and> hashCodePartition ''abc'' (- 2147483648) = Some (- 1)
   \<and> (\<exists>p. hashCodePartition ''abc'' 7 = Some p \<and> p \<noteq> - 1)"
proof -
  have a: "(- 2147483648 :: int32) \<le>s 0" and b: "\<not> (7 :: int32) \<le>s 0"
    by (simp_all add: word_sle_eq)
  from hashCodePartition_sentinel [of "- 2147483648" "''abc''"] a
  have "hashCodePartition ''abc'' (- 2147483648) = Some (- 1)" by blast
  moreover from hashCodePartition_sentinel [of 7 "''abc''"] b
  have "\<exists>p. hashCodePartition ''abc'' 7 = Some p \<and> p \<noteq> - 1" by blast
  moreover from hashCodePartition_sentinel [of 0 "''abc''"]
  have "hashCodePartition ''abc'' 0 = Some (- 1)" "hashCodePartition ''abc'' (- 5) = Some (- 1)"
    by blast+
  ultimately show ?thesis by blast
qed

section \<open>Properties of the pipeline\<close>

subsection \<open>\<open>readTopic\<close>\<close>

lemma readPartition_fails: "isl (readPartition cmd name p) \<longleftrightarrow> partition_fails cmd name p"
  by (auto simp: readPartition_def partition_fails_def Let_def split: sum.splits if_splits)

lemma readPartition_Id: "readPartition cmd name p = Inr np \<Longrightarrow> Id np = p"
  by (auto simp: readPartition_def Let_def split: sum.splits if_splits)

lemma readTopic_loop_Name: "Name (fst (readTopic_loop cmd name ps tp)) = Name tp"
  by (induction ps arbitrary: tp) (auto split: sum.splits)

lemma readTopic_loop_fails:
  "snd (readTopic_loop cmd name ps tp) \<noteq> None \<longleftrightarrow> list_ex (partition_fails cmd name) ps"
proof (induction ps arbitrary: tp)
  case Nil
  then show ?case by simp
next
  case (Cons p ps)
  show ?case
  proof (cases "readPartition cmd name p")
    case (Inl err)
    then have "partition_fails cmd name p"
      using readPartition_fails [of cmd name p] by simp
    with Inl show ?thesis by simp
  next
    case (Inr np)
    then have "\<not> partition_fails cmd name p"
      using readPartition_fails [of cmd name p] by simp
    with Inr Cons.IH show ?thesis by simp
  qed
qed

lemma readTopic_loop_ids:
  "readTopic_loop cmd name ps tp = (tp', None) \<Longrightarrow>
     map Id (Partitions tp') = map Id (Partitions tp) @ ps"
proof (induction ps arbitrary: tp)
  case Nil
  then show ?case by simp
next
  case (Cons p ps)
  then show ?case
    by (cases "readPartition cmd name p") (auto dest: readPartition_Id)
qed

lemma readTopic_Name: "Name (fst (readTopic cmd name)) = name"
  by (simp add: readTopic_def Let_def readTopic_loop_Name split: sum.splits)

lemma readTopic_fails: "snd (readTopic cmd name) \<noteq> None \<longleftrightarrow> retrieval_fails cmd name"
proof (cases "partitions cmd")
  case False
  then show ?thesis by (simp add: readTopic_def retrieval_fails_def)
next
  case True
  show ?thesis
  proof (cases "client_Partitions (client cmd) name")
    case (Inl err)
    with True show ?thesis by (simp add: readTopic_def retrieval_fails_def)
  next
    case (Inr ps)
    with True readTopic_loop_fails [of cmd name ps "\<lparr>Name = name, Partitions = []\<rparr>"]
    show ?thesis by (simp add: readTopic_def retrieval_fails_def)
  qed
qed

lemma readTopic_ok: "snd (readTopic cmd name) = None \<longleftrightarrow> \<not> retrieval_fails cmd name"
  using readTopic_fails [of cmd name] by blast

lemma successes_alt:
  "successes cmd topics =
     map (\<lambda>tn. fst (readTopic cmd tn)) (filter (\<lambda>tn. snd (readTopic cmd tn) = None) topics)"
  by (simp add: successes_def readTopic_ok)

lemma readTopic_complete:
  assumes "readTopic cmd name = (tp, None)" and "partitions cmd"
  shows "client_Partitions (client cmd) name = Inr (map Id (Partitions tp))"
proof (cases "client_Partitions (client cmd) name")
  case (Inl err)
  with assms show ?thesis by (simp add: readTopic_def)
next
  case (Inr ps)
  with assms have "readTopic_loop cmd name ps \<lparr>Name = name, Partitions = []\<rparr> = (tp, None)"
    by (simp add: readTopic_def)
  from readTopic_loop_ids [OF this] Inr show ?thesis by simp
qed

lemma readTopic_bare:
  "\<not> partitions cmd \<Longrightarrow> readTopic cmd name = (\<lparr>Name = name, Partitions = []\<rparr>, None)"
  by (simp add: readTopic_def)

lemma readTopic_no_partitions:
  "client_Partitions (client cmd) name = Inr [] \<Longrightarrow>
     readTopic cmd name = (\<lparr>Name = name, Partitions = []\<rparr>, None)"
  by (simp add: readTopic_def Let_def)


subsection \<open>The invariant is kept by every step\<close>

lemma sum_list_map_update:
  fixes f :: "'a \<Rightarrow> 'b::comm_monoid_add"
  shows "i < length xs \<Longrightarrow>
    sum_list (map f (xs[i := y])) + f (xs ! i) = sum_list (map f xs) + f y"
proof (induction xs arbitrary: i)
  case Nil
  then show ?case by simp
next
  case (Cons x xs)
  show ?case
  proof (cases i)
    case 0
    then show ?thesis by (simp add: ac_simps)
  next
    case (Suc j)
    with Cons.prems have "j < length xs" by simp
    from Cons.IH [OF this] Suc show ?thesis by (simp add: ac_simps)
  qed
qed

lemma sum_list_map_update_same:
  fixes f :: "'a \<Rightarrow> 'b::cancel_comm_monoid_add"
  assumes "i < length xs" and "f y = f (xs ! i)"
  shows "sum_list (map f (xs[i := y])) = sum_list (map f xs)"
  using sum_list_map_update [OF assms(1), of f y] assms(2) by simp

lemma sum_list_map_update_add:
  fixes f :: "'a \<Rightarrow> 'b::cancel_comm_monoid_add"
  assumes "i < length xs" and "f (xs ! i) = 0"
  shows "sum_list (map f (xs[i := y])) = sum_list (map f xs) + f y"
  using sum_list_map_update [OF assms(1), of f y] assms(2) by simp

lemma map_fst_update:
  "i < length xs \<Longrightarrow> map fst (xs[i := (fst (xs ! i), w)]) = map fst xs"
  by (simp add: map_update list_update_same_conv)

lemma inv_init: "inv cmd topics (init topics)"
  by (simp add: inv_def init_def worker_ok_def serializer_ok_def written_def reported_def
        all_done_def comp_def)


lemma inv_worker_ok:
  "inv cmd topics s \<Longrightarrow> i < length (workers s) \<Longrightarrow> worker_ok cmd (serializer s) i (workers s ! i)"
  by (simp add: inv_def)

lemma all_done_update:
  "all_done (s\<lparr>workers := ws\<rparr>) = list_all (\<lambda>w. snd w = WDone) ws"
  by (simp add: all_done_def)

lemma not_all_done:
  "i < length (workers s) \<Longrightarrow> snd (workers s ! i) \<noteq> WDone \<Longrightarrow> \<not> all_done s"
  by (auto simp: all_done_def list_all_length)

lemma worker_ok_update:
  assumes "\<forall>j < length ws. worker_ok cmd ser j (ws ! j)"
    and "i < length ws" and "worker_ok cmd ser i w"
  shows "\<forall>j < length ws. worker_ok cmd ser j (ws[i := w] ! j)"
  using assms by (auto simp: nth_list_update)

lemma worker_read_inv:
  assumes I: "inv cmd topics s" and st: "worker_read cmd i s = Some s'"
  shows "inv cmd topics s'"
proof -
  from st have i: "i < length (workers s)" and r: "snd (workers s ! i) = WRead"
    by (auto simp: worker_read_def split: if_splits)
  define name where "name = fst (workers s ! i)"
  have nd: "\<not> returned s" using I not_all_done [OF i] r by (auto simp: inv_def)
  have w0: "written cmd (workers s ! i) = {#}" and r0: "reported cmd (workers s ! i) = {#}"
    using r by (simp_all add: written_def reported_def)
  have others: "\<forall>j < length (workers s). worker_ok cmd (serializer s) j (workers s ! j)"
    using I by (simp add: inv_def)
  have ser: "serializer_ok s" using I by (simp add: inv_def)
  show ?thesis
  proof (cases "readTopic cmd name")
    case (Pair tp e)
    show ?thesis
    proof (cases e)
      case None
      with Pair st i r have s': "s' = s\<lparr>workers := (workers s)[i := (name, WSend tp)]\<rparr>"
        by (simp add: worker_read_def name_def Let_def)
      have "written cmd (name, WSend tp) = {#}" "reported cmd (name, WSend tp) = {#}"
        by (simp_all add: written_def reported_def)
      then have sums: "sum_list (map (written cmd) ((workers s)[i := (name, WSend tp)]))
                   = sum_list (map (written cmd) (workers s))"
        "sum_list (map (reported cmd) ((workers s)[i := (name, WSend tp)]))
                   = sum_list (map (reported cmd) (workers s))"
        using i w0 r0 by (simp_all add: sum_list_map_update_same)
      have wk: "\<forall>j < length (workers s).
                  worker_ok cmd (serializer s) j ((workers s)[i := (name, WSend tp)] ! j)"
        using others i Pair None by (intro worker_ok_update) (simp_all add: worker_ok_def)
      have so: "serializer_ok s'"
        using ser r i by (auto simp: s' serializer_ok_def nth_list_update split: sstate.splits)
      show ?thesis
        using I nd i sums wk so map_fst_update [OF i, of "WSend tp"]
        by (simp add: inv_def s' name_def)
    next
      case (Some err)
      with Pair st i r have s': "s' = s\<lparr>workers := (workers s)[i := (name, WDone)],
                                        stderr := stderr s @ [diagnostic name err]\<rparr>"
        by (simp add: worker_read_def name_def Let_def)
      have "written cmd (name, WDone) = {#}" "reported cmd (name, WDone) = {#diagnostic name err#}"
        using Pair Some by (simp_all add: written_def reported_def)
      then have sums: "sum_list (map (written cmd) ((workers s)[i := (name, WDone)]))
                   = sum_list (map (written cmd) (workers s))"
        "sum_list (map (reported cmd) ((workers s)[i := (name, WDone)]))
                   = sum_list (map (reported cmd) (workers s)) + {#diagnostic name err#}"
        using i w0 r0 by (simp_all add: sum_list_map_update_same sum_list_map_update_add)
      have wk: "\<forall>j < length (workers s).
                  worker_ok cmd (serializer s) j ((workers s)[i := (name, WDone)] ! j)"
        using others i by (intro worker_ok_update) (simp_all add: worker_ok_def)
      have so: "serializer_ok s'"
        using ser r i by (auto simp: s' serializer_ok_def nth_list_update split: sstate.splits)
      show ?thesis
        using I nd i sums wk so map_fst_update [OF i, of WDone]
        by (simp add: inv_def s' name_def)
    qed
  qed
qed


lemma worker_send_inv:
  assumes I: "inv cmd topics s" and st: "worker_send i s = Some s'"
  shows "inv cmd topics s'"
proof -
  from st obtain name tp where i: "i < length (workers s)" and ser: "serializer s = SRecv"
    and w: "workers s ! i = (name, WSend tp)"
    and s': "s' = s\<lparr>workers := (workers s)[i := (name, WWait)], serializer := SWrite i tp\<rparr>"
    by (auto simp: worker_send_def split: if_splits prod.splits wstate.splits)
  have nd: "\<not> returned s" using I not_all_done [OF i] w by (auto simp: inv_def)
  have others: "\<forall>j < length (workers s). worker_ok cmd SRecv j (workers s ! j)"
    using I ser by (simp add: inv_def)
  have rt: "readTopic cmd name = (tp, None)"
    using others i w by (auto simp: worker_ok_def)
  have wk: "\<forall>j < length (workers s).
              worker_ok cmd (SWrite i tp) j ((workers s)[i := (name, WWait)] ! j)"
  proof (intro allI impI)
    fix j assume j: "j < length (workers s)"
    show "worker_ok cmd (SWrite i tp) j ((workers s)[i := (name, WWait)] ! j)"
    proof (cases "j = i")
      case True
      with i rt show ?thesis by (simp add: worker_ok_def)
    next
      case False
      with others j show ?thesis
        by (auto simp: worker_ok_def split: wstate.splits)
    qed
  qed
  have "written cmd (name, WWait) = written cmd (workers s ! i)"
    "reported cmd (name, WWait) = reported cmd (workers s ! i)"
    by (simp_all add: w written_def reported_def)
  then have sums: "sum_list (map (written cmd) ((workers s)[i := (name, WWait)]))
                   = sum_list (map (written cmd) (workers s))"
        "sum_list (map (reported cmd) ((workers s)[i := (name, WWait)]))
                   = sum_list (map (reported cmd) (workers s))"
    using i by (simp_all add: sum_list_map_update_same)
  have so: "serializer_ok s'" using i by (simp add: s' serializer_ok_def)
  have "fst (workers s ! i) = name" by (simp add: w)
  with map_fst_update [OF i, of WWait]
  have mf: "map fst ((workers s)[i := (name, WWait)]) = map fst (workers s)" by simp
  show ?thesis
    using I nd i sums wk so mf by (simp add: inv_def s')
qed

lemma serializer_write_inv:
  assumes I: "inv cmd topics s" and st: "serializer_write s = Some s'"
  shows "inv cmd topics s'"
proof -
  from st obtain i tp where ser: "serializer s = SWrite i tp"
    and s': "s' = s\<lparr>stdout := stdout s @ [tp],
                     workers := (workers s)[i := (fst (workers s ! i), WAcked)],
                     serializer := SRecv\<rparr>"
    by (auto simp: serializer_write_def split: sstate.splits)
  define name where "name = fst (workers s ! i)"
  have i: "i < length (workers s)" and w: "snd (workers s ! i) = WWait"
    using I ser by (simp_all add: inv_def serializer_ok_def)
  have nd: "\<not> returned s" using I not_all_done [OF i] w by (auto simp: inv_def)
  have others: "\<forall>j < length (workers s). worker_ok cmd (SWrite i tp) j (workers s ! j)"
    using I ser by (simp add: inv_def)
  have rt: "readTopic cmd name = (tp, None)"
    using others i w by (auto simp: worker_ok_def name_def prod_eq_iff)
  have wk: "\<forall>j < length (workers s).
              worker_ok cmd SRecv j ((workers s)[i := (name, WAcked)] ! j)"
  proof (intro allI impI)
    fix j assume j: "j < length (workers s)"
    show "worker_ok cmd SRecv j ((workers s)[i := (name, WAcked)] ! j)"
    proof (cases "j = i")
      case True
      with i rt show ?thesis by (simp add: worker_ok_def)
    next
      case False
      with others j show ?thesis
        by (auto simp: worker_ok_def split: wstate.splits)
    qed
  qed
  have "written cmd (workers s ! i) = {#}" "written cmd (name, WAcked) = {#tp#}"
    "reported cmd (name, WAcked) = reported cmd (workers s ! i)"
    using w rt by (simp_all add: written_def reported_def)
  then have sums: "sum_list (map (written cmd) ((workers s)[i := (name, WAcked)]))
                   = sum_list (map (written cmd) (workers s)) + {#tp#}"
        "sum_list (map (reported cmd) ((workers s)[i := (name, WAcked)]))
                   = sum_list (map (reported cmd) (workers s))"
    using i by (simp_all add: sum_list_map_update_same sum_list_map_update_add)
  have so: "serializer_ok s'" by (simp add: s' serializer_ok_def)
  show ?thesis
    using I nd i sums wk so map_fst_update [OF i, of WAcked]
    by (simp add: inv_def s' name_def)
qed

lemma worker_ack_inv:
  assumes I: "inv cmd topics s" and st: "worker_ack i s = Some s'"
  shows "inv cmd topics s'"
proof -
  define name where "name = fst (workers s ! i)"
  from st have i: "i < length (workers s)" and w: "snd (workers s ! i) = WAcked"
    and s': "s' = s\<lparr>workers := (workers s)[i := (name, WDone)]\<rparr>"
    by (auto simp: worker_ack_def name_def split: if_splits)
  have nd: "\<not> returned s" using I not_all_done [OF i] w by (auto simp: inv_def)
  have others: "\<forall>j < length (workers s). worker_ok cmd (serializer s) j (workers s ! j)"
    using I by (simp add: inv_def)
  have rt: "snd (readTopic cmd name) = None"
    using others i w by (auto simp: worker_ok_def name_def)
  have wk: "\<forall>j < length (workers s).
              worker_ok cmd (serializer s) j ((workers s)[i := (name, WDone)] ! j)"
    using others i by (intro worker_ok_update) (simp_all add: worker_ok_def)
  have "written cmd (name, WDone) = written cmd (workers s ! i)"
    "reported cmd (name, WDone) = reported cmd (workers s ! i)"
    using w rt by (simp_all add: written_def reported_def name_def)
  then have sums: "sum_list (map (written cmd) ((workers s)[i := (name, WDone)]))
                   = sum_list (map (written cmd) (workers s))"
        "sum_list (map (reported cmd) ((workers s)[i := (name, WDone)]))
                   = sum_list (map (reported cmd) (workers s))"
    using i by (simp_all add: sum_list_map_update_same)
  have so: "serializer_ok s'"
    using I w i by (auto simp: s' inv_def serializer_ok_def nth_list_update split: sstate.splits)
  show ?thesis
    using I nd i sums wk so map_fst_update [OF i, of WDone]
    by (simp add: inv_def s' name_def)
qed

lemma wait_return_inv:
  assumes I: "inv cmd topics s" and st: "wait_return s = Some s'"
  shows "inv cmd topics s'"
proof -
  from st have d: "all_done s" and s': "s' = s\<lparr>returned := True\<rparr>"
    by (auto simp: wait_return_def split: if_splits)
  have "serializer_ok s'" using I by (simp add: inv_def s' serializer_ok_def split: sstate.splits)
  with I d show ?thesis by (simp add: inv_def s' all_done_def)
qed

lemma step_inv: "inv cmd topics s \<Longrightarrow> step cmd e s = Some s' \<Longrightarrow> inv cmd topics s'"
  by (cases e)
     (auto intro: worker_read_inv worker_send_inv serializer_write_inv worker_ack_inv
        wait_return_inv)

lemma exec_inv: "inv cmd topics s \<Longrightarrow> exec cmd sched s = Some s' \<Longrightarrow> inv cmd topics s'"
proof (induction sched arbitrary: s)
  case Nil
  then show ?case by simp
next
  case (Cons e es)
  then show ?case by (auto split: option.splits dest: step_inv)
qed

lemma run_inv: "exec cmd sched (init topics) = Some s \<Longrightarrow> inv cmd topics s"
  using exec_inv [OF inv_init] .


subsection \<open>What a run emits, and that it ends\<close>

lemma written_all_done:
  "list_all (\<lambda>w. snd w = WDone) ws \<Longrightarrow>
     sum_list (map (written cmd) ws) = mset (successes cmd (map fst ws))"
  by (induction ws) (auto simp: written_def successes_alt)

lemma reported_all_done:
  "list_all (\<lambda>w. snd w = WDone) ws \<Longrightarrow>
     sum_list (map (reported cmd) ws) = mset (diagnostics cmd (map fst ws))"
  by (induction ws) (auto simp: reported_def diagnostics_def split: option.splits)

lemma inv_returned:
  assumes "inv cmd topics s" and "returned s"
  shows "mset (stdout s) = mset (successes cmd topics)"
    and "mset (stderr s) = mset (diagnostics cmd topics)"
    and "all_done s" and "serializer s = SRecv"
proof -
  from assms have d: "list_all (\<lambda>w. snd w = WDone) (workers s)"
    and m: "map fst (workers s) = topics"
    by (simp_all add: inv_def all_done_def)
  from assms d show "mset (stdout s) = mset (successes cmd topics)"
    using written_all_done [OF d, of cmd] m by (simp add: inv_def)
  from assms d show "mset (stderr s) = mset (diagnostics cmd topics)"
    using reported_all_done [OF d, of cmd] m by (simp add: inv_def)
  from d show "all_done s" by (simp add: all_done_def)
  from assms(1) have "serializer_ok s" by (simp add: inv_def)
  with d show "serializer s = SRecv"
    by (auto simp: serializer_ok_def list_all_length split: sstate.splits)
qed

lemma in_sum_list_mset:
  "x \<in># sum_list (map f ws) \<Longrightarrow> \<exists>w \<in> set ws. x \<in># f w"
  by (induction ws) auto

lemma inv_stdout:
  assumes I: "inv cmd topics s" and x: "tp \<in> set (stdout s)"
  shows "\<exists>tn \<in> set topics. readTopic cmd tn = (tp, None)"
proof -
  from I x have "tp \<in># sum_list (map (written cmd) (workers s))"
    by (simp add: inv_def flip: set_mset_mset)
  then obtain w where w: "w \<in> set (workers s)" and t: "tp \<in># written cmd w"
    by (blast dest: in_sum_list_mset)
  from w obtain i where i: "i < length (workers s)" and wi: "workers s ! i = w"
    by (auto simp: in_set_conv_nth)
  from I i wi have ok: "worker_ok cmd (serializer s) i w" by (auto simp: inv_def)
  from t ok have "readTopic cmd (fst w) = (tp, None)"
    by (auto simp: written_def worker_ok_def prod_eq_iff split: if_splits)
  moreover from I w have "fst w \<in> set topics" by (auto simp: inv_def)
  ultimately show ?thesis by blast
qed

lemma inv_stderr:
  assumes I: "inv cmd topics s" and x: "line \<in> set (stderr s)"
  shows "\<exists>tn \<in> set topics. \<exists>err. snd (readTopic cmd tn) = Some err \<and> line = diagnostic tn err"
proof -
  from I x have "line \<in># sum_list (map (reported cmd) (workers s))"
    by (simp add: inv_def flip: set_mset_mset)
  then obtain w where w: "w \<in> set (workers s)" and t: "line \<in># reported cmd w"
    by (blast dest: in_sum_list_mset)
  from t have "\<exists>err. snd (readTopic cmd (fst w)) = Some err \<and> line = diagnostic (fst w) err"
    by (auto simp: reported_def split: if_splits option.splits)
  moreover from I w have "fst w \<in> set topics" by (auto simp: inv_def)
  ultimately show ?thesis by blast
qed

lemma progress:
  assumes I: "inv cmd topics s" and nr: "\<not> returned s"
  shows "\<exists>e s'. step cmd e s = Some s'"
proof (cases "all_done s")
  case True
  with nr have "step cmd Return s = Some (s\<lparr>returned := True\<rparr>)" by (simp add: wait_return_def)
  then show ?thesis by blast
next
  case False
  then obtain i where i: "i < length (workers s)" and nd: "snd (workers s ! i) \<noteq> WDone"
    by (auto simp: all_done_def list_all_length)
  obtain name w where wi: "workers s ! i = (name, w)" by (cases "workers s ! i")
  from I i have ok: "worker_ok cmd (serializer s) i (workers s ! i)" by (simp add: inv_def)
  from I have oc: "\<not> out_closed s" by (simp add: inv_def)
  show ?thesis
  proof (cases w)
    case WRead
    with i wi have "\<exists>s'. step cmd (Read i) s = Some s'"
      by (cases "readTopic cmd name") (auto simp: worker_read_def split: option.splits)
    then show ?thesis by blast
  next
    case (WSend tp)
    show ?thesis
    proof (cases "serializer s")
      case SRecv
      with i wi WSend oc have "\<exists>s'. step cmd (Send i) s = Some s'"
        by (simp add: worker_send_def)
      then show ?thesis by blast
    next
      case (SWrite j tp')
      then have "\<exists>s'. step cmd Write s = Some s'" by (simp add: serializer_write_def)
      then show ?thesis by blast
    qed
  next
    case WWait
    with ok wi have "\<exists>tp. serializer s = SWrite i tp" by (simp add: worker_ok_def)
    then have "\<exists>s'. step cmd Write s = Some s'" by (auto simp: serializer_write_def)
    then show ?thesis by blast
  next
    case WAcked
    with i wi have "\<exists>s'. step cmd (Ack i) s = Some s'" by (simp add: worker_ack_def)
    then show ?thesis by blast
  next
    case WDone
    with nd wi show ?thesis by simp
  qed
qed


lemma weight_update:
  assumes "i < length ws" and "weight w < weight (snd (ws ! i))"
  shows "sum_list (map (\<lambda>w. weight (snd w)) (ws[i := (n, w)]))
           < sum_list (map (\<lambda>w. weight (snd w)) ws)"
  using sum_list_map_update [OF assms(1), of "\<lambda>w. weight (snd w)" "(n, w)"] assms(2) by simp

lemma step_remaining:
  assumes I: "inv cmd topics s" and st: "step cmd e s = Some s'"
  shows "remaining s' < remaining s"
proof (cases e)
  case (Read i)
  with st show ?thesis
    by (cases "readTopic cmd (fst (workers s ! i))")
       (auto simp: worker_read_def remaining_def Let_def intro!: weight_update
             split: if_splits option.splits)
next
  case (Send i)
  with st show ?thesis
    by (auto simp: worker_send_def remaining_def intro!: weight_update
             split: if_splits prod.splits wstate.splits)
next
  case Write
  with st obtain i tp where ser: "serializer s = SWrite i tp"
    and s': "s' = s\<lparr>stdout := stdout s @ [tp],
                     workers := (workers s)[i := (fst (workers s ! i), WAcked)],
                     serializer := SRecv\<rparr>"
    by (auto simp: serializer_write_def split: sstate.splits)
  from I ser have "i < length (workers s)" "snd (workers s ! i) = WWait"
    by (simp_all add: inv_def serializer_ok_def)
  then show ?thesis by (auto simp: s' remaining_def intro!: weight_update)
next
  case (Ack i)
  with st show ?thesis
    by (auto simp: worker_ack_def remaining_def intro!: weight_update split: if_splits)
next
  case Return
  with st show ?thesis by (auto simp: wait_return_def remaining_def split: if_splits)
qed

lemma exec_remaining:
  "inv cmd topics s \<Longrightarrow> exec cmd sched s = Some s' \<Longrightarrow> length sched + remaining s' \<le> remaining s"
proof (induction sched arbitrary: s)
  case Nil
  then show ?case by simp
next
  case (Cons e es)
  from Cons.prems(2) obtain s1 where s1: "step cmd e s = Some s1" and r: "exec cmd es s1 = Some s'"
    by (auto split: option.splits)
  from step_inv [OF Cons.prems(1) s1] have "inv cmd topics s1" .
  from Cons.IH [OF this r] step_remaining [OF Cons.prems(1) s1] show ?case by simp
qed

lemma remaining_init: "remaining (init topics) = 4 * length topics + 1"
proof -
  have "sum_list (map (\<lambda>w. weight (snd w)) (map (\<lambda>tn. (tn, WRead)) topics)) = 4 * length topics"
    by (induction topics) simp_all
  then show ?thesis by (simp add: remaining_def init_def)
qed

lemma completes:
  "inv cmd topics s \<Longrightarrow> \<exists>sched s'. exec cmd sched s = Some s' \<and> returned s'"
proof (induction "remaining s" arbitrary: s rule: less_induct)
  case less
  show ?case
  proof (cases "returned s")
    case True
    then have "exec cmd [] s = Some s \<and> returned s" by simp
    then show ?thesis by blast
  next
    case False
    from progress [OF less.prems False] obtain e s1 where s1: "step cmd e s = Some s1" by blast
    have "inv cmd topics s1" using step_inv [OF less.prems s1] .
    moreover have "remaining s1 < remaining s" using step_remaining [OF less.prems s1] .
    ultimately obtain sched s' where "exec cmd sched s1 = Some s'" "returned s'"
      using less.hyps by blast
    with s1 have "exec cmd (e # sched) s = Some s' \<and> returned s'" by simp
    then show ?thesis by blast
  qed
qed

lemma exec_append:
  "exec cmd (es @ fs) s = (case exec cmd es s of None \<Rightarrow> None | Some s' \<Rightarrow> exec cmd fs s')"
  by (induction es arbitrary: s) (auto split: option.splits)


subsection \<open>The example run\<close>

lemma demo_reads:
  "readTopic (demo_cmd True) ''orders'' = (orders_record, None)"
  "readTopic (demo_cmd True) ''audit'' = (\<lparr>Name = ''audit'', Partitions = []\<rparr>, Some (Error ''unknown topic''))"
  "readTopic (demo_cmd True) ''empty'' = (\<lparr>Name = ''empty'', Partitions = []\<rparr>, None)"
  by (simp_all add: readTopic_def readPartition_def demo_cmd_def demo_client_def orders_record_def)

lemma demo_select: "select_topics (demo_cmd b) [''orders'', ''audit'', ''empty''] = [''orders'', ''audit'', ''empty'']"
  by (simp add: select_topics_def MatchString_def demo_cmd_def Compile_empty_def)

lemma demo_exec:
  "exec (demo_cmd True) demo_schedule (init [''orders'', ''audit'', ''empty'']) = Some demo_final"
  by (simp add: demo_schedule_def init_def worker_read_def worker_send_def worker_ack_def
        serializer_write_def wait_return_def all_done_def demo_reads demo_final_def Let_def)

lemma quiet_exec:
  "exec (demo_cmd False) quiet_schedule (init [''orders'', ''audit'', ''empty'']) = Some quiet_final"
  by (simp add: quiet_schedule_def init_def worker_read_def worker_send_def worker_ack_def
        serializer_write_def wait_return_def all_done_def readTopic_def demo_cmd_def
        quiet_final_def Let_def)

lemma demo_fails:
  "retrieval_fails (demo_cmd True) ''audit''"
  "\<not> retrieval_fails (demo_cmd True) ''orders''"
  "\<not> retrieval_fails (demo_cmd True) ''empty''"
  "\<not> retrieval_fails (demo_cmd False) tn"
  using demo_reads
  by (simp_all add: retrieval_fails_def partition_fails_def demo_cmd_def demo_client_def)

lemma demo_run:
  "run (demo_cmd True) demo_schedule = Some (Finished demo_final)"
  "run (demo_cmd False) quiet_schedule = Some (Finished quiet_final)"
proof -
  have t: "client_Topics (client (demo_cmd b)) = Inr [''orders'', ''audit'', ''empty'']" for b
    by (simp add: demo_cmd_def demo_client_def)
  show "run (demo_cmd True) demo_schedule = Some (Finished demo_final)"
    by (simp add: run_def t demo_select demo_exec)
  show "run (demo_cmd False) quiet_schedule = Some (Finished quiet_final)"
    by (simp add: run_def t demo_select quiet_exec)
qed

lemma length_diagnostics:
  "length (diagnostics cmd topics) = length (filter (retrieval_fails cmd) topics)"
proof (induction topics)
  case Nil
  then show ?case by (simp add: diagnostics_def)
next
  case (Cons tn topics)
  then show ?case
    using readTopic_ok [of cmd tn]
    by (cases "snd (readTopic cmd tn)") (simp_all add: diagnostics_def)
qed

lemma diagnostic_names_topic: "\<exists>pre post. diagnostic tn err = pre @ tn @ post"
  unfolding diagnostic_def by blast

lemma run_extends:
  assumes "exec cmd sched (init topics) = Some s"
  shows "\<exists>sched' s'. exec cmd (sched @ sched') (init topics) = Some s' \<and> returned s'"
proof -
  from completes [OF run_inv [OF assms]] obtain sched' s'
    where "exec cmd sched' s = Some s'" "returned s'" by blast
  with assms have "exec cmd (sched @ sched') (init topics) = Some s' \<and> returned s'"
    by (simp add: exec_append)
  then show ?thesis by blast
qed

lemma MatchString_iff:
  "MatchString re s \<longleftrightarrow> (\<exists>pre u post. s = pre @ u @ post \<and> matches re u)"
proof -
  have "MatchString re s \<longleftrightarrow> (\<exists>u. sublist u s \<and> matches re u)"
    by (auto simp: MatchString_def list_ex_iff)
  also have "\<dots> \<longleftrightarrow> (\<exists>pre u post. s = pre @ u @ post \<and> matches re u)"
    unfolding sublist_def by blast
  finally show ?thesis .
qed

section \<open>The claims about the pipeline\<close>

text \<open>
  In the theorems below a run of the pipeline over the topics \<open>topics\<close> is any schedule
  \<open>sched\<close> with \<open>exec cmd sched (init topics) = Some s\<close>: the state \<open>s\<close> is reached by some
  interleaving of the steps of the workers, of the serializer and of \<open>run\<close>. The run has
  come to its end when \<open>returned s\<close>.
\<close>

text \<open>
  C6. In every run, a topic whose retrieval fails at any step (the listing of the
  partitions, either offset, the leader, the replicas or the in-sync replicas) has no
  record in the output; every record in the output is the complete result of a successful
  retrieval, with exactly the listed partitions; every line on stderr is the diagnostic of
  a failed topic and contains its name. The failure stops nothing: every run can be
  continued to its end, and at the end the output holds exactly the records of the
  successful topics and stderr exactly one diagnostic for each failed one.
\<close>

theorem failed_topic_reported_not_emitted:
  assumes "exec cmd sched (init topics) = Some s"
  shows "(\<forall>tn \<in> set topics. retrieval_fails cmd tn \<longrightarrow> (\<forall>tp \<in> set (stdout s). Name tp \<noteq> tn))
    \<and> (\<forall>tp \<in> set (stdout s). \<exists>tn \<in> set topics.
          \<not> retrieval_fails cmd tn \<and> readTopic cmd tn = (tp, None)
          \<and> (partitions cmd \<longrightarrow> client_Partitions (client cmd) tn = Inr (map Id (Partitions tp))))
    \<and> (\<forall>line \<in> set (stderr s). \<exists>tn \<in> set topics. \<exists>err.
          retrieval_fails cmd tn \<and> line = diagnostic tn err
          \<and> (\<exists>pre post. line = pre @ tn @ post))
    \<and> (returned s \<longrightarrow>
          mset (stdout s) = mset (successes cmd topics)
          \<and> mset (stderr s) = mset (diagnostics cmd topics))
    \<and> (\<exists>sched' s'. exec cmd (sched @ sched') (init topics) = Some s' \<and> returned s')"
proof -
  have I: "inv cmd topics s" using assms by (rule run_inv)
  have emitted: "\<exists>tn \<in> set topics. \<not> retrieval_fails cmd tn \<and> readTopic cmd tn = (tp, None)
          \<and> (partitions cmd \<longrightarrow> client_Partitions (client cmd) tn = Inr (map Id (Partitions tp)))"
    if "tp \<in> set (stdout s)" for tp
  proof -
    from inv_stdout [OF I that] obtain tn where tn: "tn \<in> set topics"
      and r: "readTopic cmd tn = (tp, None)" by blast
    from r have "\<not> retrieval_fails cmd tn" using readTopic_ok [of cmd tn] by simp
    with tn r readTopic_complete [OF r] show ?thesis by blast
  qed
  have absent: "Name tp \<noteq> tn" if "retrieval_fails cmd tn" and "tp \<in> set (stdout s)" for tn tp
  proof -
    from emitted [OF that(2)] obtain tn' where "\<not> retrieval_fails cmd tn'"
      and r: "readTopic cmd tn' = (tp, None)" by blast
    moreover from r have "Name tp = tn'" using readTopic_Name [of cmd tn'] by simp
    ultimately show ?thesis using that(1) by auto
  qed
  have lines: "\<exists>tn \<in> set topics. \<exists>err. retrieval_fails cmd tn \<and> line = diagnostic tn err
          \<and> (\<exists>pre post. line = pre @ tn @ post)"
    if "line \<in> set (stderr s)" for line
  proof -
    from inv_stderr [OF I that] obtain tn err where tn: "tn \<in> set topics"
      and e: "snd (readTopic cmd tn) = Some err" and l: "line = diagnostic tn err" by blast
    from e have "retrieval_fails cmd tn" using readTopic_fails [of cmd tn] by simp
    with tn l diagnostic_names_topic [of tn err] show ?thesis by blast
  qed
  have "mset (stdout s) = mset (successes cmd topics) \<and> mset (stderr s) = mset (diagnostics cmd topics)"
    if "returned s"
    using inv_returned(1,2) [OF I that] by simp
  with emitted absent lines run_extends [OF assms] show ?thesis by blast
qed

text \<open>
  The run of \<open>demo_schedule\<close>: the listing of the partitions of \<open>audit\<close> fails, the records of
  \<open>orders\<close> and \<open>empty\<close> are written and the failure of \<open>audit\<close> is on stderr.
\<close>

theorem failed_topic_reported_not_emitted_witness:
  "exec (demo_cmd True) demo_schedule (init [''orders'', ''audit'', ''empty'']) = Some demo_final
   \<and> retrieval_fails (demo_cmd True) ''audit''
   \<and> returned demo_final
   \<and> stdout demo_final = [orders_record, \<lparr>Name = ''empty'', Partitions = []\<rparr>]
   \<and> stderr demo_final = [diagnostic ''audit'' (Error ''unknown topic'')]
   \<and> mset (stdout demo_final) = mset (successes (demo_cmd True) [''orders'', ''audit'', ''empty''])
   \<and> mset (stderr demo_final) = mset (diagnostics (demo_cmd True) [''orders'', ''audit'', ''empty''])"
proof -
  have r: "returned demo_final" by (simp add: demo_final_def)
  from failed_topic_reported_not_emitted [OF demo_exec] r
  have "mset (stdout demo_final) = mset (successes (demo_cmd True) [''orders'', ''audit'', ''empty''])
    \<and> mset (stderr demo_final) = mset (diagnostics (demo_cmd True) [''orders'', ''audit'', ''empty''])"
    by blast
  with demo_exec demo_fails(1) r show ?thesis by (simp add: demo_final_def)
qed

text \<open>
  C7, as stated: after all workers are known to have finished, the input channel of the
  serializer is closed, so that the serializer drains it and terminates. It fails on the
  run of \<open>demo_schedule\<close>: every worker is done and \<open>run\<close> has returned, the channel \<open>out\<close> is
  still open and the serializer is still waiting for a submission.
\<close>

theorem channel_closed_after_workers_counterexample:
  "exec (demo_cmd True) demo_schedule (init [''orders'', ''audit'', ''empty'']) = Some demo_final
   \<and> all_done demo_final \<and> returned demo_final
   \<and> \<not> out_closed demo_final \<and> serializer demo_final = SRecv"
  using demo_exec by (simp add: demo_final_def all_done_def)

text \<open>
  C7, amended. In every run the channel \<open>out\<close> is never closed. When \<open>run\<close> returns, after
  all workers have finished, the serializer is waiting for a further submission and
  holds none: every record submitted has been written.
\<close>

theorem run_returns_with_channel_open:
  assumes "exec cmd sched (init topics) = Some s"
  shows "\<not> out_closed s
    \<and> (returned s \<longrightarrow> all_done s \<and> serializer s = SRecv
                       \<and> mset (stdout s) = mset (successes cmd topics))"
proof -
  have I: "inv cmd topics s" using assms by (rule run_inv)
  then have "\<not> out_closed s" by (simp add: inv_def)
  moreover have "all_done s \<and> serializer s = SRecv \<and> mset (stdout s) = mset (successes cmd topics)"
    if "returned s"
    using inv_returned(1,3,4) [OF I that] by simp
  ultimately show ?thesis by blast
qed

theorem run_returns_with_channel_open_witness:
  "exec (demo_cmd False) quiet_schedule (init [''orders'', ''audit'', ''empty'']) = Some quiet_final
   \<and> returned quiet_final \<and> \<not> out_closed quiet_final \<and> all_done quiet_final
   \<and> serializer quiet_final = SRecv
   \<and> mset (stdout quiet_final) = mset (successes (demo_cmd False) [''orders'', ''audit'', ''empty''])"
proof -
  have r: "returned quiet_final" by (simp add: quiet_final_def)
  from run_returns_with_channel_open [OF quiet_exec] r quiet_exec show ?thesis by blast
qed

text \<open>
  C8, as stated: the entry point returns the pair (emittedCount, errorCount) and the exit
  status of the process reflects whether any topic failed. \<open>run\<close> returns no value, and it
  ends in the same way, by returning and without an exit status of its own, in the run of
  \<open>demo_schedule\<close>, where the topic \<open>audit\<close> fails, and in the run of \<open>quiet_schedule\<close>, where
  no topic fails.
\<close>

theorem exit_status_reflects_failure_counterexample:
  "run (demo_cmd True) demo_schedule = Some (Finished demo_final)
   \<and> filter (retrieval_fails (demo_cmd True)) [''orders'', ''audit'', ''empty''] = [''audit'']
   \<and> exit_status (Finished demo_final) = None
   \<and> run (demo_cmd False) quiet_schedule = Some (Finished quiet_final)
   \<and> filter (retrieval_fails (demo_cmd False)) [''orders'', ''audit'', ''empty''] = []
   \<and> exit_status (Finished quiet_final) = None"
  by (simp add: demo_run demo_fails)

text \<open>
  C8, amended. \<open>run\<close> ends the process with status 1 only when the listing of the topics
  fails. Otherwise it returns to its caller without a value and without an exit status,
  whether or not a topic failed; at the end of the run the output holds the records of
  the topics that succeeded, as many as there are, and stderr holds as many diagnostic
  lines as there are failed topics (exactly one when exactly one topic failed).
\<close>

theorem run_reports_failures_on_stderr:
  "(client_Topics (client cmd) = Inl err \<longrightarrow>
      run cmd sched = Some (Exit 1 (''failed to read topics err='' @ Error_string err @ [CHR 0x0A])))
   \<and> (client_Topics (client cmd) = Inr all \<and> run cmd sched = Some r \<longrightarrow>
        (\<exists>s. r = Finished s \<and> exit_status r = None
           \<and> (returned s \<longrightarrow>
                 mset (stdout s) = mset (successes cmd (select_topics cmd all))
                 \<and> length (stdout s)
                     = length (filter (\<lambda>tn. \<not> retrieval_fails cmd tn) (select_topics cmd all))
                 \<and> length (stderr s)
                     = length (filter (retrieval_fails cmd) (select_topics cmd all)))))"
proof -
  have "\<exists>s. r = Finished s \<and> exit_status r = None
           \<and> (returned s \<longrightarrow>
                 mset (stdout s) = mset (successes cmd (select_topics cmd all))
                 \<and> length (stdout s)
                     = length (filter (\<lambda>tn. \<not> retrieval_fails cmd tn) (select_topics cmd all))
                 \<and> length (stderr s)
                     = length (filter (retrieval_fails cmd) (select_topics cmd all)))"
    if t: "client_Topics (client cmd) = Inr all" and r: "run cmd sched = Some r"
  proof -
    from t r obtain s where e: "exec cmd sched (init (select_topics cmd all)) = Some s"
      and rs: "r = Finished s"
      by (auto simp: run_def)
    have I: "inv cmd (select_topics cmd all) s" using e by (rule run_inv)
    have "mset (stdout s) = mset (successes cmd (select_topics cmd all))
        \<and> length (stdout s)
            = length (filter (\<lambda>tn. \<not> retrieval_fails cmd tn) (select_topics cmd all))
        \<and> length (stderr s) = length (filter (retrieval_fails cmd) (select_topics cmd all))"
      if ret: "returned s"
    proof -
      from inv_returned(1,2) [OF I ret]
      have m: "mset (stdout s) = mset (successes cmd (select_topics cmd all))"
        "mset (stderr s) = mset (diagnostics cmd (select_topics cmd all))" by simp_all
      from m(1) have "length (stdout s) = length (successes cmd (select_topics cmd all))"
        by (rule mset_eq_length)
      moreover from m(2) have "length (stderr s) = length (diagnostics cmd (select_topics cmd all))"
        by (rule mset_eq_length)
      ultimately show ?thesis using m(1) by (simp add: successes_def length_diagnostics)
    qed
    with rs show ?thesis by simp
  qed
  then show ?thesis by (auto simp: run_def failf_def)
qed

theorem run_reports_failures_on_stderr_witness:
  "client_Topics (client (demo_cmd True)) = Inr [''orders'', ''audit'', ''empty'']
   \<and> run (demo_cmd True) demo_schedule = Some (Finished demo_final)
   \<and> returned demo_final
   \<and> filter (retrieval_fails (demo_cmd True)) [''orders'', ''audit'', ''empty''] = [''audit'']
   \<and> length (stderr demo_final) = 1 \<and> length (stdout demo_final) = 2
   \<and> run ((demo_cmd True)\<lparr>client := demo_client\<lparr>client_Topics := Inl (Error ''no broker'')\<rparr>\<rparr>) []
       = Some (Exit 1 (''failed to read topics err=no broker'' @ [CHR 0x0A]))"
proof -
  let ?all = "[''orders'', ''audit'', ''empty'']"
  let ?down = "(demo_cmd True)\<lparr>client := demo_client\<lparr>client_Topics := Inl (Error ''no broker'')\<rparr>\<rparr>"
  have t: "client_Topics (client (demo_cmd True)) = Inr ?all"
    by (simp add: demo_cmd_def demo_client_def)
  have r: "returned demo_final" by (simp add: demo_final_def)
  have f: "filter (retrieval_fails (demo_cmd True)) ?all = [''audit'']"
    by (simp add: demo_fails)
  from run_reports_failures_on_stderr [of "demo_cmd True" _ demo_schedule ?all "Finished demo_final"]
    t demo_run(1) r
  have "length (stdout demo_final)
          = length (filter (\<lambda>tn. \<not> retrieval_fails (demo_cmd True) tn) (select_topics (demo_cmd True) ?all))
      \<and> length (stderr demo_final)
          = length (filter (retrieval_fails (demo_cmd True)) (select_topics (demo_cmd True) ?all))"
    by auto
  then have l: "length (stderr demo_final) = 1 \<and> length (stdout demo_final) = 2"
    by (simp add: demo_select demo_fails)
  have "client_Topics (client ?down) = Inl (Error ''no broker'')" by simp
  with run_reports_failures_on_stderr [of ?down "Error ''no broker''" "[]"]
  have "run ?down [] = Some (Exit 1 (''failed to read topics err=no broker'' @ [CHR 0x0A]))"
    by simp
  with t demo_run(1) r f l show ?thesis by blast
qed

text \<open>
  C9, as stated: the record of a topic requested with the partition detail switched off
  has no partitions field and can be told from the record of a topic with zero partitions
  requested with the detail switched on. For the topic \<open>empty\<close>, which has no partition,
  \<open>readTopic\<close> returns the same record in both cases, and the record has the key \<open>name\<close>
  only.
\<close>

theorem bare_record_distinguishable_counterexample:
  "\<not> partitions (demo_cmd False) \<and> partitions (demo_cmd True)
   \<and> client_Partitions (client (demo_cmd True)) ''empty'' = Inr []
   \<and> readTopic (demo_cmd False) ''empty'' = readTopic (demo_cmd True) ''empty''
   \<and> topic_json_keys (fst (readTopic (demo_cmd False) ''empty'')) = [''name'']
   \<and> topic_json_keys (fst (readTopic (demo_cmd True) ''empty'')) = [''name'']"
  by (simp add: readTopic_def demo_cmd_def demo_client_def topic_json_keys_def)

text \<open>
  C9, amended. The record of a topic requested with the partition detail switched off
  has no partitions field. The record of a topic with zero partitions requested with the
  detail switched on is the same record; the record of a topic with at least one
  partition, requested with the detail switched on, has the partitions field.
\<close>

theorem bare_record_has_no_partitions_field:
  "(\<not> partitions cmd \<longrightarrow>
      readTopic cmd name = (\<lparr>Name = name, Partitions = []\<rparr>, None)
      \<and> topic_json_keys (fst (readTopic cmd name)) = [''name''])
   \<and> (partitions cmd \<and> client_Partitions (client cmd) name = Inr [] \<longrightarrow>
      readTopic cmd name = (\<lparr>Name = name, Partitions = []\<rparr>, None)
      \<and> topic_json_keys (fst (readTopic cmd name)) = [''name''])
   \<and> (partitions cmd \<and> client_Partitions (client cmd) name = Inr (p # ps)
        \<and> readTopic cmd name = (tp, None) \<longrightarrow>
      topic_json_keys tp = [''name'', ''partitions''])"
proof -
  have "topic_json_keys tp = [''name'', ''partitions'']"
    if "partitions cmd" and l: "client_Partitions (client cmd) name = Inr (p # ps)"
      and r: "readTopic cmd name = (tp, None)"
  proof -
    from readTopic_complete [OF r that(1)] l have "map Id (Partitions tp) = p # ps" by simp
    then have "Partitions tp \<noteq> []" by auto
    then show ?thesis by (simp add: topic_json_keys_def)
  qed
  then show ?thesis
    by (simp add: readTopic_bare readTopic_no_partitions topic_json_keys_def)
qed

theorem bare_record_has_no_partitions_field_witness:
  "\<not> partitions (demo_cmd False)
   \<and> readTopic (demo_cmd False) ''orders'' = (\<lparr>Name = ''orders'', Partitions = []\<rparr>, None)
   \<and> topic_json_keys (fst (readTopic (demo_cmd False) ''orders'')) = [''name'']
   \<and> partitions (demo_cmd True)
   \<and> client_Partitions (client (demo_cmd True)) ''empty'' = Inr []
   \<and> readTopic (demo_cmd True) ''empty'' = (\<lparr>Name = ''empty'', Partitions = []\<rparr>, None)
   \<and> client_Partitions (client (demo_cmd True)) ''orders'' = Inr [0]
   \<and> readTopic (demo_cmd True) ''orders'' = (orders_record, None)
   \<and> topic_json_keys orders_record = [''name'', ''partitions'']"
proof -
  have off: "\<not> partitions (demo_cmd False)" and on: "partitions (demo_cmd True)"
    and e: "client_Partitions (client (demo_cmd True)) ''empty'' = Inr []"
    and l: "client_Partitions (client (demo_cmd True)) ''orders'' = Inr [0]"
    by (simp_all add: demo_cmd_def demo_client_def)
  from bare_record_has_no_partitions_field [of "demo_cmd False" "''orders''"] off
  have a: "readTopic (demo_cmd False) ''orders'' = (\<lparr>Name = ''orders'', Partitions = []\<rparr>, None)
      \<and> topic_json_keys (fst (readTopic (demo_cmd False) ''orders'')) = [''name'']"
    by blast
  from bare_record_has_no_partitions_field [of "demo_cmd True" "''empty''"] on e
  have b: "readTopic (demo_cmd True) ''empty'' = (\<lparr>Name = ''empty'', Partitions = []\<rparr>, None)"
    by blast
  from bare_record_has_no_partitions_field [of "demo_cmd True" "''orders''" 0 "[]" orders_record]
    on l demo_reads(1)
  have c: "topic_json_keys orders_record = [''name'', ''partitions'']" by blast
  from off on e l a b c demo_reads(1) show ?thesis by blast
qed

text \<open>
  C10. A listed topic name is handed to the pipeline if and only if the filter matches
  some substring of the name, the empty one included; with the default filter, compiled
  from the empty pattern, every listed topic is handed on.
\<close>

theorem topic_selected_iff_filter_matches_substring:
  "(a \<in> set (select_topics cmd all) \<longleftrightarrow>
      a \<in> set all \<and> (\<exists>pre u post. a = pre @ u @ post \<and> matches (filter_re cmd) u))
   \<and> (filter_re cmd = Compile_empty \<longrightarrow> select_topics cmd all = all)"
proof -
  have "MatchString Compile_empty s" for s
  proof -
    have "s = [] @ [] @ s \<and> matches Compile_empty []" by (simp add: Compile_empty_def)
    then show ?thesis unfolding MatchString_iff by blast
  qed
  then have "filter_re cmd = Compile_empty \<longrightarrow> select_topics cmd all = all"
    by (simp add: select_topics_def)
  then show ?thesis by (auto simp: select_topics_def MatchString_iff)
qed

text \<open>
  An expression that matches \<open>log\<close> only selects \<open>syslog-1\<close>, which it does not match as a
  whole.
\<close>

theorem topic_selected_iff_filter_matches_substring_witness:
  "select_topics ((demo_cmd True)\<lparr>filter_re := Regexp (\<lambda>u. u = ''log'')\<rparr>) [''syslog-1'', ''orders'', ''log'']
     = [''syslog-1'', ''log'']
   \<and> ''syslog-1'' \<in> set (select_topics ((demo_cmd True)\<lparr>filter_re := Regexp (\<lambda>u. u = ''log'')\<rparr>)
                           [''syslog-1'', ''orders'', ''log''])
   \<and> \<not> matches (Regexp (\<lambda>u. u = ''log'')) ''syslog-1''
   \<and> filter_re (demo_cmd True) = Compile_empty
   \<and> select_topics (demo_cmd True) [''syslog-1'', ''orders'', ''log''] = [''syslog-1'', ''orders'', ''log'']"
proof -
  let ?cmd = "(demo_cmd True)\<lparr>filter_re := Regexp (\<lambda>u. u = ''log'')\<rparr>"
  let ?all = "[''syslog-1'', ''orders'', ''log'']"
  have "''syslog-1'' = ''sys'' @ ''log'' @ ''-1'' \<and> matches (filter_re ?cmd) ''log''" by simp
  then have "\<exists>pre u post. ''syslog-1'' = pre @ u @ post \<and> matches (filter_re ?cmd) u" by blast
  with topic_selected_iff_filter_matches_substring [of "''syslog-1''" ?cmd ?all]
  have m: "''syslog-1'' \<in> set (select_topics ?cmd ?all)" by simp
  have d: "filter_re (demo_cmd True) = Compile_empty" by (simp add: demo_cmd_def)
  with topic_selected_iff_filter_matches_substring [of _ "demo_cmd True" ?all]
  have e: "select_topics (demo_cmd True) ?all = ?all" by blast
  have s: "select_topics ?cmd ?all = [''syslog-1'', ''log'']"
    by (simp add: select_topics_def MatchString_def)
  from m d e s show ?thesis by simp
qed

end
